theory Spec2Isabelle
  imports Main
begin

section \<open>Characters and strings\<close>

text \<open>
  Strings are lists of 8-bit characters: the model covers documents, markers and
  delimiters written in ISO-8859-1, one \<^typ>\<open>char\<close> for each UTF-16 code unit below 256.
  Characters that an Isabelle string literal cannot hold are named here.
\<close>

abbreviation bsl :: char where "bsl \<equiv> CHR 0x5C"
abbreviation TAB :: char where "TAB \<equiv> CHR 0x09"
abbreviation LF :: char where "LF \<equiv> CHR 0x0A"
abbreviation CR :: char where "CR \<equiv> CHR 0x0D"
abbreviation dquote :: char where "dquote \<equiv> CHR 0x22"
abbreviation squote :: char where "squote \<equiv> CHR 0x27"

text \<open>\<^verbatim>\<open>String.prototype.toLowerCase\<close> on ISO-8859-1: the ASCII capitals and the accented
  capitals \<^verbatim>\<open>0xC0..0xDE\<close> (not the multiplication sign \<^verbatim>\<open>0xD7\<close>) move up by 32.\<close>

definition lower_char :: "char \<Rightarrow> char" where
  "lower_char c =
     (let n = (of_char c :: nat) in
      if (65 \<le> n \<and> n \<le> 90) \<or> (192 \<le> n \<and> n \<le> 222 \<and> n \<noteq> 215)
      then char_of (n + 32) else c)"

definition toLowerCase :: "string \<Rightarrow> string" where
  "toLowerCase s = map lower_char s"

text \<open>\<^verbatim>\<open>Canonicalize\<close> of the regular-expression semantics without the \<^verbatim>\<open>u\<close> flag: under
  \<^verbatim>\<open>i\<close> a character is compared through its upper-case form. The result is a code unit:
  the micro sign and the y with diaeresis have upper-case forms beyond 255.\<close>

definition upper_code :: "char \<Rightarrow> nat" where
  "upper_code c =
     (let n = (of_char c :: nat) in
      if (97 \<le> n \<and> n \<le> 122) \<or> (224 \<le> n \<and> n \<le> 254 \<and> n \<noteq> 247) then n - 32
      else if n = 181 then 924
      else if n = 255 then 376
      else n)"

definition Canonicalize :: "bool \<Rightarrow> char \<Rightarrow> nat" where
  "Canonicalize ignoreCase c = (if ignoreCase then upper_code c else of_char c)"

section \<open>Escaping\<close>

text \<open>\<^verbatim>\<open>input.replace(/[.*+?^${}()|[\]\\]/g, '\\$&')\<close>\<close>

definition escapeRegExp :: "string \<Rightarrow> string" where
  "escapeRegExp input =
     concat (map (\<lambda>c. if c \<in> set (''.*+?^${}()|[]'' @ [bsl]) then [bsl, c] else [c]) input)"

text \<open>\<^verbatim>\<open>s.replace(/\//g, "\\/")\<close>, used on the delimiter and on every marker.\<close>

definition escapeSlash :: "string \<Rightarrow> string" where
  "escapeSlash s = concat (map (\<lambda>c. if c = CHR ''/'' then [bsl, CHR ''/''] else [c]) s)"

text \<open>\<^verbatim>\<open>item.tag.replace(/([()[{*+.$^\\|?])/g, '\\$1')\<close>: the first replacement of
  \<^verbatim>\<open>setTags\<close>.\<close>

definition escapeSequence :: "string \<Rightarrow> string" where
  "escapeSequence t =
     concat (map (\<lambda>c. if c \<in> set (''()[{*+.$^'' @ [bsl] @ ''|?'') then [bsl, c] else [c]) t)"

section \<open>Configuration and parser state\<close>

record TagItem =
  item_tag :: string
  item_color :: string
  item_strikethrough :: bool
  item_underline :: bool
  item_bold :: bool
  item_italic :: bool
  item_backgroundColor :: string

record Contributions =
  multilineComments :: bool
  useJSDocStyle :: bool
  highlightPlainText :: bool
  items :: "TagItem list"

record DecorationRenderOptions =
  color :: string
  backgroundColor :: string
  textDecoration :: string
  fontWeight :: "string option"
  fontStyle :: "string option"

record Position =
  line :: nat
  character :: nat

record Range =
  range_start :: Position
  range_end :: Position

record CommentTag =
  tag :: string
  escapedTag :: string
  decoration :: DecorationRenderOptions
  ranges :: "Range list"

record Parser =
  tags :: "CommentTag list"
  expression :: string
  delimiter :: string
  blockCommentStart :: string
  blockCommentEnd :: string
  highlightSingleLineComments :: bool
  highlightMultilineComments :: bool
  highlightJSDoc :: bool
  isPlainText :: bool
  ignoreFirstLine :: bool
  supportedLanguage :: bool
  contributions :: Contributions

subsection \<open>\<^verbatim>\<open>setTags\<close> and the constructor\<close>

definition makeOptions :: "TagItem \<Rightarrow> DecorationRenderOptions" where
  "makeOptions item =
     \<lparr> color = item_color item,
       backgroundColor = item_backgroundColor item,
       textDecoration =
         (if item_strikethrough item then ''line-through'' else '''') @
         (if item_underline item then '' underline'' else ''''),
       fontWeight = (if item_bold item then Some ''bold'' else None),
       fontStyle = (if item_italic item then Some ''italic'' else None) \<rparr>"

definition makeTag :: "TagItem \<Rightarrow> CommentTag" where
  "makeTag item =
     \<lparr> tag = item_tag item,
       escapedTag = escapeSlash (escapeSequence (item_tag item)),
       decoration = makeOptions item,
       ranges = [] \<rparr>"

definition setTags :: "Parser \<Rightarrow> Parser" where
  "setTags p = p\<lparr>tags := tags p @ map makeTag (items (contributions p))\<rparr>"

text \<open>The field initialisers of the class, followed by the constructor's call of
  \<^verbatim>\<open>setTags\<close>.\<close>

definition newParser :: "Contributions \<Rightarrow> Parser" where
  "newParser cfg =
     setTags
       \<lparr> tags = [], expression = '''', delimiter = '''',
         blockCommentStart = '''', blockCommentEnd = '''',
         highlightSingleLineComments = True,
         highlightMultilineComments = False,
         highlightJSDoc = False,
         isPlainText = False,
         ignoreFirstLine = False,
         supportedLanguage = True,
         contributions = cfg \<rparr>"

subsection \<open>\<^verbatim>\<open>setCommentFormat\<close> and \<^verbatim>\<open>setDelimiter\<close>\<close>

text \<open>\<^verbatim>\<open>singleLine\<close> is \<^verbatim>\<open>string | null\<close>; the test \<^verbatim>\<open>if (singleLine)\<close> is false for
  \<^verbatim>\<open>null\<close> and for the empty string.\<close>

definition setCommentFormat :: "string option \<Rightarrow> string \<Rightarrow> string \<Rightarrow> Parser \<Rightarrow> Parser" where
  "setCommentFormat singleLine start end p =
     (let p1 = (case singleLine of
                  Some s \<Rightarrow> if s \<noteq> [] then p\<lparr>delimiter := escapeRegExp s\<rparr>
                            else p\<lparr>highlightSingleLineComments := False\<rparr>
                | None \<Rightarrow> p\<lparr>highlightSingleLineComments := False\<rparr>)
      in p1\<lparr> blockCommentStart := escapeRegExp start,
              blockCommentEnd := escapeRegExp end,
              highlightMultilineComments := multilineComments (contributions p1) \<rparr>)"

text \<open>The \<^verbatim>\<open>case "plaintext"\<close> arm; \<^verbatim>\<open>case "alloy"\<close> has no \<^verbatim>\<open>break\<close> and runs into it.\<close>

definition plaintextCase :: "Parser \<Rightarrow> Parser" where
  "plaintextCase p =
     p\<lparr> isPlainText := True,
        supportedLanguage := highlightPlainText (contributions p) \<rparr>"

text \<open>The \<^verbatim>\<open>switch\<close> compares with \<^verbatim>\<open>===\<close> and takes the first arm that matches, so the
  second \<^verbatim>\<open>case "tcl"\<close> is never reached; it is kept at its place.\<close>

definition setDelimiter :: "string \<Rightarrow> Parser \<Rightarrow> Parser" where
  "setDelimiter languageCode p0 =
     (let p = p0\<lparr> supportedLanguage := True, ignoreFirstLine := False, isPlainText := False \<rparr>
      in
      if languageCode = ''asciidoc'' then
        setCommentFormat (Some ''//'') ''////'' ''////'' p
      else if languageCode \<in> set [''apex'', ''javascript'', ''javascriptreact'', ''typescript'',
                                  ''typescriptreact''] then
        (setCommentFormat (Some ''//'') ''/*'' ''*/'' p)\<lparr>highlightJSDoc := True\<rparr>
      else if languageCode \<in> set [''al'', ''c'', ''cpp'', ''csharp'', ''dafny'', ''dart'', ''flax'',
                                  ''fsharp'', ''go'', ''groovy'', ''haxe'', ''java'', ''jsonc'',
                                  ''kotlin'', ''less'', ''pascal'', ''objectpascal'', ''php'',
                                  ''promela'', ''rust'', ''scala'', ''sass'', ''scss'',
                                  ''shaderlab'', ''stylus'', ''swift'', ''verilog'', ''vue''] then
        setCommentFormat (Some ''//'') ''/*'' ''*/'' p
      else if languageCode = ''css'' then
        setCommentFormat (Some ''/*'') ''/*'' ''*/'' p
      else if languageCode \<in> set [''coffeescript'', ''cson'', ''dockerfile'', ''gdscript'',
                                  ''graphql'', ''julia'', ''makefile'', ''perl'', ''perl6'',
                                  ''puppet'', ''r'', ''ruby'', ''shellscript'', ''tcl'', ''toml'',
                                  ''yaml''] then
        p\<lparr>delimiter := ''#''\<rparr>
      else if languageCode = ''tcl'' then
        p\<lparr>delimiter := ''#'', ignoreFirstLine := True\<rparr>
      else if languageCode = ''gitconfig'' then
        p\<lparr>delimiter := ''[#;]''\<rparr>
      else if languageCode = ''gitignore'' then
        p\<lparr>delimiter := ''^#'', isPlainText := True\<rparr>
      else if languageCode \<in> set [''elixir'', ''python''] then
        (setCommentFormat (Some ''#'') [dquote, dquote, dquote] [dquote, dquote, dquote] p)
          \<lparr>ignoreFirstLine := True\<rparr>
      else if languageCode = ''nim'' then
        setCommentFormat (Some ''#'') ''#['' '']#'' p
      else if languageCode = ''powershell'' then
        setCommentFormat (Some ''#'') ''<#'' ''#>'' p
      else if languageCode \<in> set [''ada'', ''hive-sql'', ''pig'', ''plsql'', ''sql''] then
        p\<lparr>delimiter := ''--''\<rparr>
      else if languageCode = ''lua'' then
        setCommentFormat (Some ''--'') ''--[['' '']]'' p
      else if languageCode \<in> set [''elm'', ''haskell''] then
        setCommentFormat (Some ''--'') ''{-'' ''-}'' p
      else if languageCode \<in> set [''brightscript'', ''diagram'', ''vb''] then
        p\<lparr>delimiter := [squote]\<rparr>
      else if languageCode \<in> set [''bibtex'', ''tex'', ''erlang'', ''matlab''] then
        p\<lparr>delimiter := ''%''\<rparr>
      else if languageCode = ''latex'' then
        setCommentFormat (Some ''%'') (bsl # ''begin{comment}'') (bsl # ''end{comment}'') p
      else if languageCode = ''ahk'' then
        setCommentFormat (Some '';'') ''/*'' ''*/'' p
      else if languageCode \<in> set [''clojure'', ''racket'', ''lisp'', ''rainmeter''] then
        p\<lparr>delimiter := '';''\<rparr>
      else if languageCode \<in> set [''gas'', ''terraform''] then
        setCommentFormat (Some ''#'') ''/*'' ''*/'' p
      else if languageCode = ''COBOL'' then
        p\<lparr>delimiter := escapeRegExp ''*>''\<rparr>
      else if languageCode = ''fortran-modern'' then
        p\<lparr>delimiter := ''c''\<rparr>
      else if languageCode \<in> set [''SAS'', ''stata''] then
        setCommentFormat (Some ''*'') ''/*'' ''*/'' p
      else if languageCode \<in> set [''html'', ''markdown'', ''xml''] then
        setCommentFormat (Some ''<!--'') ''<!--'' ''-->'' p
      else if languageCode = ''twig'' then
        setCommentFormat (Some ''{#'') ''{#'' ''#}'' p
      else if languageCode = ''genstat'' then
        setCommentFormat (Some [bsl]) [dquote] [dquote] p
      else if languageCode = ''cfml'' then
        setCommentFormat (Some ''<!---'') ''<!---'' ''--->'' p
      else if languageCode = ''alloy'' then
        plaintextCase
          (p\<lparr> delimiter := ''(?://|--)'',
              blockCommentStart := escapeRegExp ''/*'',
              blockCommentEnd := escapeRegExp ''*/'',
              highlightMultilineComments := multilineComments (contributions p) \<rparr>)
      else if languageCode = ''plaintext'' then
        plaintextCase p
      else
        p\<lparr>supportedLanguage := False\<rparr>)"

subsection \<open>\<^verbatim>\<open>SetRegex\<close>\<close>

text \<open>\<^verbatim>\<open>characters.join("|")\<close> over the escaped markers, in the order of \<^verbatim>\<open>this.tags\<close>.\<close>

fun join :: "string \<Rightarrow> string list \<Rightarrow> string" where
  "join sep [] = []"
| "join sep [x] = x"
| "join sep (x # y # ys) = x @ sep @ join sep (y # ys)"

definition characters :: "Parser \<Rightarrow> string list" where
  "characters p = map escapedTag (tags p)"

text \<open>In the source the second string is \<^verbatim>\<open>")+( |\t)*"\<close>, whose \<^verbatim>\<open>\t\<close> is a tab character of
  the pattern; the first is \<^verbatim>\<open>"(^)+([ \\t]*[ \\t]*)"\<close>, whose \<^verbatim>\<open>\\t\<close> is a backslash and
  a \<^verbatim>\<open>t\<close>.\<close>

definition SetRegex :: "string \<Rightarrow> Parser \<Rightarrow> Parser" where
  "SetRegex languageCode p0 =
     (let p = setDelimiter languageCode p0 in
      if \<not> supportedLanguage p then p
      else
        let start =
              (if isPlainText p \<and> highlightPlainText (contributions p)
               then ''(^)+([ '' @ [bsl] @ ''t]*[ '' @ [bsl] @ ''t]*)''
               else ''('' @ escapeSlash (delimiter p) @ '')+( |'' @ [TAB] @ '')*'')
        in p\<lparr>expression := start @ ''('' @ join ''|'' (characters p) @ '')+(.*)''\<rparr>)"

section \<open>Regular expressions\<close>

datatype citem = CLit char | CSpace | CNonSpace

datatype regex =
    REmpty
  | RChar char
  | RAny
  | RClass bool "citem list"
  | RBol
  | REol
  | RSeq regex regex
  | RAlt regex regex
  | RGroup nat regex
  | RStar bool regex
  | RPlus bool regex
  | ROpt bool regex

subsection \<open>Reading a pattern\<close>

type_synonym frame = "nat option \<times> regex list \<times> regex list"

datatype pmode =
    MNormal | MEscape | MGroupOpen | MGroupQ
  | MClassOpen | MClass bool "citem list" | MClassEsc bool "citem list"

datatype qstat = QNone | QAtom | QQuant

record pstate =
  stack :: "frame list"
  ngroups :: nat
  mode :: pmode
  lastq :: qstat

definition seq_of :: "regex list \<Rightarrow> regex" where
  "seq_of cur = foldr RSeq (rev cur) REmpty"

fun alt_of :: "regex list \<Rightarrow> regex" where
  "alt_of [] = REmpty"
| "alt_of [a] = a"
| "alt_of (a # b # bs) = RAlt a (alt_of (b # bs))"

fun frame_regex :: "frame \<Rightarrow> regex" where
  "frame_regex (k, alts, cur) =
     (let d = alt_of (rev (seq_of cur # alts))
      in case k of None \<Rightarrow> d | Some i \<Rightarrow> RGroup i d)"

definition syntax_chars :: "char list" where
  "syntax_chars = ''^$.*+?()[]{}|/'' @ [bsl]"

fun add_atom :: "regex \<Rightarrow> pstate \<Rightarrow> pstate option" where
  "add_atom r st =
     (case stack st of
        [] \<Rightarrow> None
      | (k, alts, cur) # fs \<Rightarrow>
          Some (st\<lparr>stack := (k, alts, r # cur) # fs, mode := MNormal, lastq := QAtom\<rparr>))"

fun add_assertion :: "regex \<Rightarrow> pstate \<Rightarrow> pstate option" where
  "add_assertion r st =
     (case stack st of
        [] \<Rightarrow> None
      | (k, alts, cur) # fs \<Rightarrow>
          Some (st\<lparr>stack := (k, alts, r # cur) # fs, mode := MNormal, lastq := QNone\<rparr>))"

fun quantify :: "(regex \<Rightarrow> regex) \<Rightarrow> pstate \<Rightarrow> pstate option" where
  "quantify q st =
     (case (lastq st, stack st) of
        (QAtom, (k, alts, r # cur) # fs) \<Rightarrow>
          Some (st\<lparr>stack := (k, alts, q r # cur) # fs, lastq := QQuant\<rparr>)
      | _ \<Rightarrow> None)"

fun lazy_of :: "regex \<Rightarrow> regex option" where
  "lazy_of (RStar g r) = Some (RStar False r)"
| "lazy_of (RPlus g r) = Some (RPlus False r)"
| "lazy_of (ROpt g r) = Some (ROpt False r)"
| "lazy_of _ = None"

fun make_lazy :: "pstate \<Rightarrow> pstate option" where
  "make_lazy st =
     (case stack st of
        (k, alts, r # cur) # fs \<Rightarrow>
          (case lazy_of r of
             Some r' \<Rightarrow> Some (st\<lparr>stack := (k, alts, r' # cur) # fs, lastq := QNone\<rparr>)
           | None \<Rightarrow> None)
      | _ \<Rightarrow> None)"

definition open_group :: "bool \<Rightarrow> pstate \<Rightarrow> pstate" where
  "open_group capturing st =
     (if capturing
      then st\<lparr>stack := (Some (Suc (ngroups st)), [], []) # stack st,
               ngroups := Suc (ngroups st), mode := MNormal, lastq := QNone\<rparr>
      else st\<lparr>stack := (None, [], []) # stack st, mode := MNormal, lastq := QNone\<rparr>)"

fun close_group :: "pstate \<Rightarrow> pstate option" where
  "close_group st =
     (case stack st of
        f # (k, alts, cur) # fs \<Rightarrow>
          Some (st\<lparr>stack := (k, alts, frame_regex f # cur) # fs, lastq := QAtom\<rparr>)
      | _ \<Rightarrow> None)"

fun next_alternative :: "pstate \<Rightarrow> pstate option" where
  "next_alternative st =
     (case stack st of
        (k, alts, cur) # fs \<Rightarrow>
          Some (st\<lparr>stack := (k, seq_of cur # alts, []) # fs, lastq := QNone\<rparr>)
      | [] \<Rightarrow> None)"

definition step_normal :: "pstate \<Rightarrow> char \<Rightarrow> pstate option" where
  "step_normal st c =
     (if c = bsl then Some (st\<lparr>mode := MEscape\<rparr>)
      else if c = CHR ''('' then Some (st\<lparr>mode := MGroupOpen\<rparr>)
      else if c = CHR '')'' then close_group st
      else if c = CHR ''|'' then next_alternative st
      else if c = CHR ''*'' then quantify (RStar True) st
      else if c = CHR ''+'' then quantify (RPlus True) st
      else if c = CHR ''?'' then
        (if lastq st = QQuant then make_lazy st else quantify (ROpt True) st)
      else if c = CHR ''.'' then add_atom RAny st
      else if c = CHR ''^'' then add_assertion RBol st
      else if c = CHR ''$'' then add_assertion REol st
      else if c = CHR ''['' then Some (st\<lparr>mode := MClassOpen\<rparr>)
      else if c = CHR ''{'' then None
      else add_atom (RChar c) st)"

definition step_escape :: "pstate \<Rightarrow> char \<Rightarrow> pstate option" where
  "step_escape st c =
     (if c = CHR ''t'' then add_atom (RChar TAB) st
      else if c = CHR ''n'' then add_atom (RChar LF) st
      else if c = CHR ''r'' then add_atom (RChar CR) st
      else if c = CHR ''s'' then add_atom (RClass False [CSpace]) st
      else if c = CHR ''S'' then add_atom (RClass False [CNonSpace]) st
      else if c \<in> set syntax_chars then add_atom (RChar c) st
      else None)"

definition step_class :: "bool \<Rightarrow> citem list \<Rightarrow> pstate \<Rightarrow> char \<Rightarrow> pstate option" where
  "step_class neg its st c =
     (if c = CHR '']'' then add_atom (RClass neg its) st
      else if c = bsl then Some (st\<lparr>mode := MClassEsc neg its\<rparr>)
      else if c = CHR ''-'' then None
      else Some (st\<lparr>mode := MClass neg (its @ [CLit c])\<rparr>))"

definition step_class_escape :: "bool \<Rightarrow> citem list \<Rightarrow> pstate \<Rightarrow> char \<Rightarrow> pstate option" where
  "step_class_escape neg its st c =
     (if c = CHR ''t'' then Some (st\<lparr>mode := MClass neg (its @ [CLit TAB])\<rparr>)
      else if c = CHR ''n'' then Some (st\<lparr>mode := MClass neg (its @ [CLit LF])\<rparr>)
      else if c = CHR ''r'' then Some (st\<lparr>mode := MClass neg (its @ [CLit CR])\<rparr>)
      else if c = CHR ''s'' then Some (st\<lparr>mode := MClass neg (its @ [CSpace])\<rparr>)
      else if c = CHR ''S'' then Some (st\<lparr>mode := MClass neg (its @ [CNonSpace])\<rparr>)
      else if c \<in> set syntax_chars \<or> c = CHR ''-''
        then Some (st\<lparr>mode := MClass neg (its @ [CLit c])\<rparr>)
      else None)"

definition pstep :: "pstate \<Rightarrow> char \<Rightarrow> pstate option" where
  "pstep st c =
     (case mode st of
        MNormal \<Rightarrow> step_normal st c
      | MEscape \<Rightarrow> step_escape st c
      | MGroupOpen \<Rightarrow>
          (if c = CHR ''?'' then Some (st\<lparr>mode := MGroupQ\<rparr>)
           else step_normal (open_group True st) c)
      | MGroupQ \<Rightarrow> (if c = CHR '':'' then Some (open_group False st) else None)
      | MClassOpen \<Rightarrow>
          (if c = CHR ''^'' then Some (st\<lparr>mode := MClass True []\<rparr>)
           else step_class False [] st c)
      | MClass neg its \<Rightarrow> step_class neg its st c
      | MClassEsc neg its \<Rightarrow> step_class_escape neg its st c)"

fun prun :: "pstate \<Rightarrow> string \<Rightarrow> pstate option" where
  "prun st [] = Some st"
| "prun st (c # cs) = (case pstep st c of None \<Rightarrow> None | Some st' \<Rightarrow> prun st' cs)"

definition pstart :: pstate where
  "pstart = \<lparr>stack = [(None, [], [])], ngroups = 0, mode = MNormal, lastq = QNone\<rparr>"

definition parse_pattern :: "string \<Rightarrow> regex option" where
  "parse_pattern src =
     (case prun pstart src of
        None \<Rightarrow> None
      | Some st \<Rightarrow>
          (case (mode st, stack st) of
             (MNormal, [f]) \<Rightarrow> Some (frame_regex f)
           | _ \<Rightarrow> None))"

subsection \<open>Matching\<close>

record rflags =
  ignoreCase :: bool
  multiline :: bool

record mstate =
  m_prev :: "char option"
  m_rest :: string
  m_caps :: "nat \<Rightarrow> string option"

definition is_line_terminator :: "char \<Rightarrow> bool" where
  "is_line_terminator c = (c = LF \<or> c = CR)"

definition is_white_space :: "char \<Rightarrow> bool" where
  "is_white_space c = (of_char c \<in> set [9, 10, 11, 12, 13, 32, 160 :: nat])"

fun item_matches :: "rflags \<Rightarrow> citem \<Rightarrow> char \<Rightarrow> bool" where
  "item_matches f (CLit a) c = (Canonicalize (ignoreCase f) a = Canonicalize (ignoreCase f) c)"
| "item_matches f CSpace c = is_white_space c"
| "item_matches f CNonSpace c = (\<not> is_white_space c)"

definition consume :: "(char \<Rightarrow> bool) \<Rightarrow> mstate \<Rightarrow> mstate list" where
  "consume ok s =
     (case m_rest s of
        [] \<Rightarrow> []
      | c # cs \<Rightarrow> if ok c then [s\<lparr>m_prev := Some c, m_rest := cs\<rparr>] else [])"

fun groups_in :: "regex \<Rightarrow> nat list" where
  "groups_in (RSeq a b) = groups_in a @ groups_in b"
| "groups_in (RAlt a b) = groups_in a @ groups_in b"
| "groups_in (RGroup k r) = k # groups_in r"
| "groups_in (RStar g r) = groups_in r"
| "groups_in (RPlus g r) = groups_in r"
| "groups_in (ROpt g r) = groups_in r"
| "groups_in _ = []"

definition clear_groups :: "regex \<Rightarrow> mstate \<Rightarrow> mstate" where
  "clear_groups r s = s\<lparr>m_caps := (\<lambda>k. if k \<in> set (groups_in r) then None else m_caps s k)\<rparr>"

definition set_group :: "nat \<Rightarrow> mstate \<Rightarrow> mstate \<Rightarrow> mstate" where
  "set_group k s s' =
     s'\<lparr>m_caps := (m_caps s')(k := Some (take (length (m_rest s) - length (m_rest s')) (m_rest s)))\<rparr>"

definition at_line_start :: "rflags \<Rightarrow> mstate \<Rightarrow> bool" where
  "at_line_start f s =
     (case m_prev s of None \<Rightarrow> True | Some c \<Rightarrow> multiline f \<and> is_line_terminator c)"

definition at_line_end :: "rflags \<Rightarrow> mstate \<Rightarrow> bool" where
  "at_line_end f s =
     (case m_rest s of [] \<Rightarrow> True | c # cs \<Rightarrow> multiline f \<and> is_line_terminator c)"

fun rsize :: "regex \<Rightarrow> nat" where
  "rsize (RSeq a b) = Suc (rsize a + rsize b)"
| "rsize (RAlt a b) = Suc (rsize a + rsize b)"
| "rsize (RGroup k r) = Suc (rsize r)"
| "rsize (RStar g r) = Suc (rsize r)"
| "rsize (RPlus g r) = Suc (Suc (rsize r))"
| "rsize (ROpt g r) = Suc (rsize r)"
| "rsize _ = 0"

function ms :: "rflags \<Rightarrow> regex \<Rightarrow> mstate \<Rightarrow> mstate list" where
  "ms f REmpty s = [s]"
| "ms f (RChar a) s =
     consume (\<lambda>c. Canonicalize (ignoreCase f) a = Canonicalize (ignoreCase f) c) s"
| "ms f RAny s = consume (\<lambda>c. \<not> is_line_terminator c) s"
| "ms f (RClass neg its) s = consume (\<lambda>c. neg \<noteq> (\<exists>it \<in> set its. item_matches f it c)) s"
| "ms f RBol s = (if at_line_start f s then [s] else [])"
| "ms f REol s = (if at_line_end f s then [s] else [])"
| "ms f (RSeq a b) s = concat (map (\<lambda>s'. ms f b s') (ms f a s))"
| "ms f (RAlt a b) s = ms f a s @ ms f b s"
| "ms f (RGroup k r) s = map (set_group k s) (ms f r s)"
| "ms f (RStar g r) s =
     (let more = concat (map (\<lambda>s'. if length (m_rest s') < length (m_rest s)
                                     then ms f (RStar g r) s' else [])
                             (ms f r (clear_groups r s)))
      in if g then more @ [s] else s # more)"
| "ms f (RPlus g r) s = concat (map (\<lambda>s'. ms f (RStar g r) s') (ms f r (clear_groups r s)))"
| "ms f (ROpt g r) s =
     (let more = filter (\<lambda>s'. length (m_rest s') < length (m_rest s)) (ms f r (clear_groups r s))
      in if g then more @ [s] else s # more)"
  by pat_completeness auto
termination
  by (relation "measures [\<lambda>(f, r, s). rsize r, \<lambda>(f, r, s). length (m_rest s)]") auto

record rmatch =
  m_index :: nat
  m_0 :: string
  m_group :: "nat \<Rightarrow> string option"

record RegExp =
  re_source :: regex
  re_flags :: rflags

definition match_at :: "RegExp \<Rightarrow> char option \<Rightarrow> string \<Rightarrow> nat \<Rightarrow> rmatch option" where
  "match_at re prev rest idx =
     (case ms (re_flags re) (re_source re) \<lparr>m_prev = prev, m_rest = rest, m_caps = (\<lambda>k. None)\<rparr> of
        [] \<Rightarrow> None
      | s' # _ \<Rightarrow>
          Some \<lparr> m_index = idx,
                 m_0 = take (length rest - length (m_rest s')) rest,
                 m_group = m_caps s' \<rparr>)"

fun find_match :: "RegExp \<Rightarrow> char option \<Rightarrow> string \<Rightarrow> nat \<Rightarrow> rmatch option" where
  "find_match re prev [] idx = match_at re prev [] idx"
| "find_match re prev (c # cs) idx =
     (case match_at re prev (c # cs) idx of
        Some m \<Rightarrow> Some m
      | None \<Rightarrow> find_match re (Some c) cs (Suc idx))"

definition exec :: "RegExp \<Rightarrow> string \<Rightarrow> nat \<Rightarrow> rmatch option" where
  "exec re text lastIndex =
     (if length text < lastIndex then None
      else find_match re (if lastIndex = 0 then None else Some (text ! (lastIndex - 1)))
             (drop lastIndex text) lastIndex)"

datatype error = SyntaxError | TypeError

definition new_RegExp :: "string \<Rightarrow> string \<Rightarrow> error + RegExp" where
  "new_RegExp src flags =
     (case parse_pattern src of
        None \<Rightarrow> Inl SyntaxError
      | Some r \<Rightarrow>
          Inr \<lparr> re_source = r,
                re_flags = \<lparr> ignoreCase = (CHR ''i'' \<in> set flags),
                             multiline = (CHR ''m'' \<in> set flags) \<rparr> \<rparr>)"

section \<open>The document\<close>

definition next_line :: "Position \<Rightarrow> Position" where
  "next_line pos = \<lparr>line = Suc (line pos), character = 0\<rparr>"

definition next_column :: "Position \<Rightarrow> Position" where
  "next_column pos = pos\<lparr>character := Suc (character pos)\<rparr>"

function walk :: "string \<Rightarrow> nat \<Rightarrow> Position \<Rightarrow> Position" where
  "walk [] n pos = pos"
| "walk (c # cs) 0 pos = pos"
| "walk (c # cs) (Suc n) pos =
     (if c = CR \<and> take 1 cs = [LF] then
        (case n of 0 \<Rightarrow> pos | Suc n' \<Rightarrow> walk (tl cs) n' (next_line pos))
      else if is_line_terminator c then walk cs n (next_line pos)
      else walk cs n (next_column pos))"
  by pat_completeness auto
termination
  by (relation "measure (\<lambda>(text, n, pos). n)") auto

definition positionAt :: "string \<Rightarrow> nat \<Rightarrow> Position" where
  "positionAt text offset = walk text offset \<lparr>line = 0, character = 0\<rparr>"

definition isBefore :: "Position \<Rightarrow> Position \<Rightarrow> bool" where
  "isBefore a b = (line a < line b \<or> (line a = line b \<and> character a < character b))"

definition new_Range :: "Position \<Rightarrow> Position \<Rightarrow> Range" where
  "new_Range a b =
     (if isBefore b a then \<lparr>range_start = b, range_end = a\<rparr>
      else \<lparr>range_start = a, range_end = b\<rparr>)"

section \<open>The scans\<close>

fun find_index_of :: "string \<Rightarrow> CommentTag list \<Rightarrow> nat option" where
  "find_index_of w [] = None"
| "find_index_of w (t # ts) =
     (if toLowerCase (tag t) = toLowerCase w then Some 0
      else map_option Suc (find_index_of w ts))"

fun findTag :: "CommentTag list \<Rightarrow> string option \<Rightarrow> error + nat option" where
  "findTag [] g = Inr None"
| "findTag (t # ts) None = Inl TypeError"
| "findTag (t # ts) (Some w) = Inr (find_index_of w (t # ts))"

definition pushRange :: "nat \<Rightarrow> Range \<Rightarrow> Parser \<Rightarrow> Parser" where
  "pushRange i r p =
     p\<lparr>tags := (tags p)[i := (tags p ! i)\<lparr>ranges := ranges (tags p ! i) @ [r]\<rparr>]\<rparr>"

definition addMatch :: "string option \<Rightarrow> Range \<Rightarrow> Parser \<Rightarrow> error + Parser" where
  "addMatch g r p =
     (case findTag (tags p) g of
        Inl e \<Rightarrow> Inl e
      | Inr None \<Rightarrow> Inr p
      | Inr (Some i) \<Rightarrow> Inr (pushRange i r p))"

definition singleLineBody :: "string \<Rightarrow> rmatch \<Rightarrow> Parser \<Rightarrow> error + Parser" where
  "singleLineBody text match p =
     (let startPos = positionAt text (m_index match);
          endPos = positionAt text (m_index match + length (m_0 match));
          range = new_Range startPos endPos
      in if ignoreFirstLine p \<and> line startPos = 0 \<and> character startPos = 0 then Inr p
         else addMatch (m_group match 3) range p)"

partial_function (option)
  singleLineLoop :: "RegExp \<Rightarrow> string \<Rightarrow> nat \<Rightarrow> Parser \<Rightarrow> (error + Parser) option" where
  "singleLineLoop regEx text lastIndex p =
     (case exec regEx text lastIndex of
        None \<Rightarrow> Some (Inr p)
      | Some match \<Rightarrow>
          (case singleLineBody text match p of
             Inl e \<Rightarrow> Some (Inl e)
           | Inr p' \<Rightarrow> singleLineLoop regEx text (m_index match + length (m_0 match)) p'))"

definition FindSingleLineComments :: "string \<Rightarrow> Parser \<Rightarrow> (error + Parser) option" where
  "FindSingleLineComments text p =
     (if \<not> highlightSingleLineComments p then Some (Inr p)
      else
        case new_RegExp (expression p) (if isPlainText p then ''igm'' else ''ig'') of
          Inl e \<Rightarrow> Some (Inl e)
        | Inr regEx \<Rightarrow> singleLineLoop regEx text 0 p)"

definition lineBody :: "string \<Rightarrow> rmatch \<Rightarrow> rmatch \<Rightarrow> Parser \<Rightarrow> error + Parser" where
  "lineBody text match ln p =
     (case m_group ln 2 of
        None \<Rightarrow> Inl TypeError
      | Some l2 \<Rightarrow>
          (let startPos = positionAt text (m_index match + m_index ln + length l2);
               endPos = positionAt text (m_index match + m_index ln + length (m_0 ln));
               range = new_Range startPos endPos
           in addMatch (m_group ln 3) range p))"

partial_function (option)
  lineLoop :: "RegExp \<Rightarrow> string \<Rightarrow> rmatch \<Rightarrow> nat \<Rightarrow> Parser \<Rightarrow> (error + Parser) option" where
  "lineLoop commentRegEx text match lastIndex p =
     (case exec commentRegEx (m_0 match) lastIndex of
        None \<Rightarrow> Some (Inr p)
      | Some ln \<Rightarrow>
          (case lineBody text match ln p of
             Inl e \<Rightarrow> Some (Inl e)
           | Inr p' \<Rightarrow> lineLoop commentRegEx text match (m_index ln + length (m_0 ln)) p'))"

partial_function (option)
  blockLoop :: "RegExp \<Rightarrow> RegExp \<Rightarrow> string \<Rightarrow> nat \<Rightarrow> Parser \<Rightarrow> (error + Parser) option" where
  "blockLoop regEx commentRegEx text lastIndex p =
     (case exec regEx text lastIndex of
        None \<Rightarrow> Some (Inr p)
      | Some match \<Rightarrow>
          (case lineLoop commentRegEx text match 0 p of
             None \<Rightarrow> None
           | Some (Inl e) \<Rightarrow> Some (Inl e)
           | Some (Inr p') \<Rightarrow>
               blockLoop regEx commentRegEx text (m_index match + length (m_0 match)) p'))"

definition commentMatchString :: "string \<Rightarrow> Parser \<Rightarrow> string" where
  "commentMatchString lead p = lead @ join ''|'' (characters p) @
     '')([ ]*|[:])+([^*/][^'' @ [bsl] @ ''r'' @ [bsl] @ ''n]*)''"

definition blockLead :: string where
  "blockLead = ''(^)+([ '' @ [bsl] @ ''t]*[ '' @ [bsl] @ ''t]*)(''"

definition blockRegexString :: "Parser \<Rightarrow> string" where
  "blockRegexString p =
     ''(^|[ '' @ [bsl] @ ''t])('' @ blockCommentStart p @ ''['' @ [bsl] @ ''s])+(['' @ [bsl] @
     ''s'' @ [bsl] @ ''S]*?)('' @ blockCommentEnd p @ '')''"

definition FindBlockComments :: "string \<Rightarrow> Parser \<Rightarrow> (error + Parser) option" where
  "FindBlockComments text p =
     (if \<not> highlightMultilineComments p then Some (Inr p)
      else
        case new_RegExp (blockRegexString p) ''gm'' of
          Inl e \<Rightarrow> Some (Inl e)
        | Inr regEx \<Rightarrow>
            (case new_RegExp (commentMatchString blockLead p) ''igm'' of
               Inl e \<Rightarrow> Some (Inl e)
             | Inr commentRegEx \<Rightarrow> blockLoop regEx commentRegEx text 0 p))"

definition jsdocLead :: string where
  "jsdocLead = ''(^)+([ '' @ [bsl] @ ''t]*'' @ [bsl] @ ''*[ '' @ [bsl] @ ''t]*)(''"

definition jsdocRegexString :: string where
  "jsdocRegexString =
     ''(^|[ '' @ [bsl] @ ''t])('' @ [bsl] @ ''/'' @ [bsl] @ ''*'' @ [bsl] @ ''*)+(['' @ [bsl] @
     ''s'' @ [bsl] @ ''S]*?)('' @ [bsl] @ ''*'' @ [bsl] @ ''/)''"

definition FindJSDocComments :: "string \<Rightarrow> Parser \<Rightarrow> (error + Parser) option" where
  "FindJSDocComments text p =
     (if \<not> highlightMultilineComments p \<and> \<not> highlightJSDoc p then Some (Inr p)
      else
        case new_RegExp jsdocRegexString ''gm'' of
          Inl e \<Rightarrow> Some (Inl e)
        | Inr regEx \<Rightarrow>
            (case new_RegExp (commentMatchString jsdocLead p) ''igm'' of
               Inl e \<Rightarrow> Some (Inl e)
             | Inr commentRegEx \<Rightarrow> blockLoop regEx commentRegEx text 0 p))"

definition ApplyDecorations :: "Parser \<Rightarrow> (DecorationRenderOptions \<times> Range list) list \<times> Parser" where
  "ApplyDecorations p =
     (map (\<lambda>t. (decoration t, ranges t)) (tags p),
      p\<lparr>tags := map (\<lambda>t. t\<lparr>ranges := []\<rparr>) (tags p)\<rparr>)"

declare singleLineLoop.simps [code] lineLoop.simps [code] blockLoop.simps [code]

section \<open>Observations and sample configurations\<close>

text \<open>The result handed to the renderer: for every tag, in registry order, its marker and
  the ranges collected for it.\<close>

definition rangeMapping :: "Parser \<Rightarrow> (string \<times> Range list) list" where
  "rangeMapping p = map (\<lambda>t. (tag t, ranges t)) (tags p)"

text \<open>Runs a second operation on the parser left by a first one, when that one returned
  normally.\<close>

definition andThen ::
  "(error + Parser) option \<Rightarrow> (Parser \<Rightarrow> (error + Parser) option) \<Rightarrow> (error + Parser) option" where
  "andThen r f = (case r of None \<Rightarrow> None | Some (Inl e) \<Rightarrow> Some (Inl e) | Some (Inr p) \<Rightarrow> f p)"

definition observe :: "(error + Parser) option \<Rightarrow> (error + (string \<times> Range list) list) option" where
  "observe r = map_option (map_sum id rangeMapping) r"

text \<open>A tag entry of the settings with the given marker and no styling.\<close>

definition plainItem :: "string \<Rightarrow> TagItem" where
  "plainItem t =
     \<lparr> item_tag = t, item_color = [], item_strikethrough = False, item_underline = False,
       item_bold = False, item_italic = False, item_backgroundColor = [] \<rparr>"

definition sampleConfig :: "bool \<Rightarrow> string list \<Rightarrow> Contributions" where
  "sampleConfig plain markers =
     \<lparr> multilineComments = True, useJSDocStyle = True, highlightPlainText = plain,
       items = map plainItem markers \<rparr>"

text \<open>A document with a block comment, a doc comment and a single-line comment.\<close>

definition sampleDocument :: string where
  "sampleDocument = ''/*'' @ [LF] @ ''! a'' @ [LF] @ ''*/'' @ [LF] @ ''/**'' @ [LF] @ '' * ! b'' @ [LF] @
     '' */'' @ [LF] @ ''//! c''"

section \<open>Patterns and properties used in the statements\<close>

text \<open>The pattern of a literal string: its characters in sequence.\<close>

definition lit :: "string \<Rightarrow> regex" where
  "lit w = seq_of (rev (map RChar w))"

text \<open>The alternatives \<^verbatim>\<open>a|b|c\<close> of a list of literal strings, in the order of the list; of the empty list, the empty pattern.\<close>

definition alternation :: "string list \<Rightarrow> regex" where
  "alternation ws = alt_of (if ws = [] then [REmpty] else map lit ws)"

text \<open>Both replacements of \<^verbatim>\<open>setTags\<close> on one marker.\<close>

definition escapedMarker :: "string \<Rightarrow> string" where
  "escapedMarker t = escapeSlash (escapeSequence t)"

text \<open>What the two replacements of \<^verbatim>\<open>setTags\<close> make of one character of a marker.\<close>

definition escapeChar :: "char \<Rightarrow> string" where
  "escapeChar c = (if c \<in> set (''()[{*+.$^'' @ [bsl] @ ''|?/'') then [bsl, c] else [c])"

text \<open>Every tag holds the escaped form of its own marker, as \<^verbatim>\<open>setTags\<close> builds it.\<close>

definition registry_ok :: "Parser \<Rightarrow> bool" where
  "registry_ok p \<longleftrightarrow> (\<forall>t \<in> set (tags p). escapedTag t = escapeSlash (escapeSequence (tag t)))"

text \<open>The markers of the registry, in registry order.\<close>

definition markers :: "Parser \<Rightarrow> string list" where
  "markers p = map tag (tags p)"

text \<open>\<^verbatim>\<open>[ \t]\<close>\<close>

definition wsClass :: regex where
  "wsClass = RClass False [CLit CHR '' '', CLit TAB]"

text \<open>\<^verbatim>\<open>(^)+\<close>\<close>

definition lineStartGroup :: regex where
  "lineStartGroup = RPlus True (RGroup 1 (RSeq RBol REmpty))"

text \<open>\<^verbatim>\<open>([ \t]*[ \t]*)\<close>\<close>

definition indentGroup :: regex where
  "indentGroup = RGroup 2 (RSeq (RStar True wsClass) (RSeq (RStar True wsClass) REmpty))"

text \<open>\<^verbatim>\<open>([ \t]*\*[ \t]*)\<close>\<close>

definition starIndentGroup :: regex where
  "starIndentGroup =
     RGroup 2 (RSeq (RStar True wsClass) (RSeq (RChar (CHR ''*'')) (RSeq (RStar True wsClass) REmpty)))"

text \<open>\<^verbatim>\<open>(.*)\<close>\<close>

definition restOfLineGroup :: regex where
  "restOfLineGroup = RGroup 4 (RSeq (RStar True RAny) REmpty)"

text \<open>\<^verbatim>\<open>([ ]*|[:])+\<close>\<close>

definition separatorGroup :: regex where
  "separatorGroup =
     RPlus True (RGroup 4 (RAlt (RSeq (RStar True (RClass False [CLit CHR '' ''])) REmpty)
                                (RSeq (RClass False [CLit CHR '':'']) REmpty)))"

text \<open>\<^verbatim>\<open>([^*/][^\r\n]*)\<close>\<close>

definition contentGroup :: regex where
  "contentGroup =
     RGroup 5 (RSeq (RClass True [CLit CHR ''*'', CLit CHR ''/''])
                    (RSeq (RStar True (RClass True [CLit CR, CLit LF])) REmpty))"

text \<open>The single-line pattern of plain-text mode over the given markers.\<close>

definition plainTextRegex :: "string list \<Rightarrow> regex" where
  "plainTextRegex ws =
     RSeq lineStartGroup (RSeq indentGroup
       (RSeq (RPlus True (RGroup 3 (alternation ws))) (RSeq restOfLineGroup REmpty)))"

text \<open>The inner line pattern of the two block scans, over the given markers; \<open>indent\<close> is its second group.\<close>

definition lineRegex :: "regex \<Rightarrow> string list \<Rightarrow> regex" where
  "lineRegex indent ws =
     RSeq lineStartGroup (RSeq indent
       (RSeq (RGroup 3 (alternation ws)) (RSeq separatorGroup (RSeq contentGroup REmpty))))"

text \<open>The first part of the plain-text expression.\<close>

definition plainStart :: string where
  "plainStart = ''(^)+([ '' @ [bsl] @ ''t]*[ '' @ [bsl] @ ''t]*)''"

text \<open>\<open>reach f r s u s'\<close>: from state \<open>s\<close> the pattern \<open>r\<close> can consume exactly \<open>u\<close> and end in \<open>s'\<close>.\<close>

definition reach :: "rflags \<Rightarrow> regex \<Rightarrow> mstate \<Rightarrow> string \<Rightarrow> mstate \<Rightarrow> bool" where
  "reach f r s u s' \<longleftrightarrow> s' \<in> set (ms f r s) \<and> m_rest s = u @ m_rest s'"

text \<open>Two strings are equal up to \<^verbatim>\<open>Canonicalize\<close>.\<close>

definition ci :: "rflags \<Rightarrow> string \<Rightarrow> string \<Rightarrow> bool" where
  "ci f u w \<longleftrightarrow> map (Canonicalize (ignoreCase f)) u = map (Canonicalize (ignoreCase f)) w"

text \<open>Every range held for a tag satisfies \<open>Q\<close> with that tag's marker.\<close>

definition ranges_ok :: "(string \<Rightarrow> Range \<Rightarrow> bool) \<Rightarrow> Parser \<Rightarrow> bool" where
  "ranges_ok Q p \<longleftrightarrow> (\<forall>t \<in> set (tags p). \<forall>r \<in> set (ranges t). Q (tag t) r)"

text \<open>Line 0, character 0.\<close>

definition origin :: Position where
  "origin = \<lparr>line = 0, character = 0\<rparr>"

text \<open>The range \<open>r\<close> consists of the positions of offsets \<open>a\<close> and \<open>a + length u\<close>, and the document reads \<open>u\<close> there.\<close>

definition covers :: "string \<Rightarrow> Range \<Rightarrow> nat \<Rightarrow> string \<Rightarrow> bool" where
  "covers doc r a u \<longleftrightarrow>
     r = new_Range (positionAt doc a) (positionAt doc (a + length u)) \<and>
     take (length u) (drop a doc) = u"

text \<open>The matcher state at the start of an attempt: no capture is set.\<close>

definition start_state :: "char option \<Rightarrow> string \<Rightarrow> mstate" where
  "start_state prev rest = \<lparr>m_prev = prev, m_rest = rest, m_caps = (\<lambda>k. None)\<rparr>"

text \<open>The character before offset \<open>i\<close>, if any.\<close>

definition prev_at :: "string \<Rightarrow> nat \<Rightarrow> char option" where
  "prev_at doc i = (if i = 0 then None else Some (doc ! (i - 1)))"

text \<open>A text that starts with a spelling of the marker \<open>mk\<close>, goes on with spaces and colons, then with a character that is neither \<^verbatim>\<open>*\<close> nor \<^verbatim>\<open>/\<close>, and has no line break after that character.\<close>

definition tagged_text :: "string \<Rightarrow> string \<Rightarrow> bool" where
  "tagged_text mk u \<longleftrightarrow>
     (\<exists>w sep c body. u = w @ sep @ c # body \<and> toLowerCase w = toLowerCase mk \<and>
        set sep \<subseteq> {CHR '' '', CHR '':''} \<and> c \<noteq> CHR ''*'' \<and> c \<noteq> CHR ''/'' \<and>
        CR \<notin> set body \<and> LF \<notin> set body)"


text \<open>A block comment whose marker is followed by a space and a star.\<close>

definition starDocument :: string where
  "starDocument = ''/*'' @ [LF] @ ''! *x'' @ [LF] @ ''*/''"

text \<open>A block comment whose marker stands alone on its line.\<close>

definition bareDocument :: string where
  "bareDocument = ''/*'' @ [LF] @ ''!'' @ [LF] @ ''abc'' @ [LF] @ ''*/''"

text \<open>The code unit that \<^verbatim>\<open>toLowerCase\<close> gives for the upper-case form of a character.\<close>

definition lower_of_upper :: "nat \<Rightarrow> nat" where
  "lower_of_upper n =
     (if n = 924 then 181 else if n = 376 then 255
      else if (65 \<le> n \<and> n \<le> 90) \<or> (192 \<le> n \<and> n \<le> 222 \<and> n \<noteq> 215) then n + 32 else n)"

text \<open>Offset \<open>i\<close> is where a line of the document starts: the start of the text, or just
  after a line break.\<close>

definition line_start :: "string \<Rightarrow> nat \<Rightarrow> bool" where
  "line_start doc i \<longleftrightarrow> i \<le> length doc \<and> (i = 0 \<or> is_line_terminator (doc ! (i - 1)))"

text \<open>After a run of spaces and tabs that may be empty, the text \<open>u\<close> goes on with a
  spelling of one of the markers.\<close>

definition marker_first :: "string list \<Rightarrow> string \<Rightarrow> bool" where
  "marker_first mks u \<longleftrightarrow>
     (\<exists>n \<in> {..length u}. set (take n u) \<subseteq> {CHR '' '', TAB} \<and>
        (\<exists>mk \<in> set mks. toLowerCase (take (length mk) (drop n u)) = toLowerCase mk))"

text \<open>The range \<open>r\<close> is held for some tag.\<close>

definition emitted :: "Parser \<Rightarrow> Range \<Rightarrow> bool" where
  "emitted p r \<longleftrightarrow> (\<exists>t \<in> set (tags p). r \<in> set (ranges t))"

text \<open>A line that starts with two spaces and a marker, and a line with a marker in its middle.\<close>

definition indentedDocument :: string where
  "indentedDocument = ''  ! x'' @ [LF] @ ''a ! b''"

text \<open>Position \<open>a\<close> is not after position \<open>b\<close>.\<close>

definition pos_le :: "Position \<Rightarrow> Position \<Rightarrow> bool" where
  "pos_le a b \<longleftrightarrow> \<not> isBefore b a"

text \<open>\<open>taken re doc i m\<close>: the loop \<^verbatim>\<open>while (match = regEx.exec(text))\<close>, entered with \<^verbatim>\<open>lastIndex = i\<close>, gets the match \<open>m\<close> at one of its rounds.\<close>

inductive taken :: "RegExp \<Rightarrow> string \<Rightarrow> nat \<Rightarrow> rmatch \<Rightarrow> bool" for re doc where
  first: "exec re doc i = Some m \<Longrightarrow> taken re doc i m"
| later: "exec re doc i = Some m \<Longrightarrow> taken re doc (m_index m + length (m_0 m)) m' \<Longrightarrow>
          taken re doc i m'"

text \<open>The range from the first offset of a match to the offset after its last character.\<close>

definition matchRange :: "string \<Rightarrow> rmatch \<Rightarrow> Range" where
  "matchRange doc m =
     \<lparr>range_start = positionAt doc (m_index m),
      range_end = positionAt doc (m_index m + length (m_0 m))\<rparr>"

text \<open>Tag \<open>j\<close> is the first tag of the registry whose marker is \<open>w\<close> up to case: the tag \<^verbatim>\<open>this.tags.find(...)\<close> gives for \<open>w\<close>.\<close>

definition first_spelling :: "CommentTag list \<Rightarrow> string \<Rightarrow> nat \<Rightarrow> bool" where
  "first_spelling ts w j \<longleftrightarrow>
     j < length ts \<and> toLowerCase (tag (ts ! j)) = toLowerCase w \<and>
     (\<forall>j' < j. toLowerCase (tag (ts ! j')) \<noteq> toLowerCase w)"

text \<open>The pattern matches at offset \<open>k\<close> of the document, with result \<open>m\<close>.\<close>

definition hit :: "RegExp \<Rightarrow> string \<Rightarrow> nat \<Rightarrow> rmatch \<Rightarrow> bool" where
  "hit re doc k m \<longleftrightarrow>
     k \<le> length doc \<and> match_at re (prev_at doc k) (drop k doc) k = Some m"

text \<open>The text \<open>v\<close> is one or more spellings of markers, the last of them \<open>g\<close>, and then characters up to a line break at most.\<close>

definition marked_text :: "string list \<Rightarrow> string \<Rightarrow> string \<Rightarrow> bool" where
  "marked_text mks g v \<longleftrightarrow>
     (\<exists>ks rest. v = concat ks @ rest \<and> ks \<noteq> [] \<and> last ks = g \<and>
        (\<forall>k \<in> set ks. \<exists>mk \<in> set mks. toLowerCase k = toLowerCase mk) \<and>
        (\<forall>c \<in> set rest. \<not> is_line_terminator c))"

text \<open>What a scan has appended to the buffer of tag \<open>j\<close>.\<close>

definition added :: "Parser \<Rightarrow> Parser \<Rightarrow> nat \<Rightarrow> Range list" where
  "added p p' j = drop (length (ranges (tags p ! j))) (ranges (tags p' ! j))"

text \<open>At offset \<open>i\<close> the document reads spaces and tabs, then spellings of markers the last of which is first spelled by tag \<open>j\<close>, then the rest of a line; \<open>r\<close> is the range of that text.\<close>

definition line_range :: "string \<Rightarrow> string list \<Rightarrow> CommentTag list \<Rightarrow> nat \<Rightarrow> nat \<Rightarrow> Range \<Rightarrow> bool" where
  "line_range doc mks ts i j r \<longleftrightarrow>
     (\<exists>ind v g. set ind \<subseteq> {CHR '' '', TAB} \<and> marked_text mks g v \<and> first_spelling ts g j \<and>
        take (length (ind @ v)) (drop i doc) = ind @ v \<and>
        r = \<lparr>range_start = positionAt doc i, range_end = positionAt doc (i + length (ind @ v))\<rparr>)"

text \<open>A marked line and its line break.\<close>

definition emptyMarkerDocument :: string where
  "emptyMarkerDocument = ''! x'' @ [LF]"

text \<open>The two offsets that \<^verbatim>\<open>FindSingleLineComments\<close> hands to \<^verbatim>\<open>positionAt\<close> for a match: \<^verbatim>\<open>match.index\<close> and \<^verbatim>\<open>match.index + match[0].length\<close>.\<close>

definition singleLineOffsets :: "rmatch \<Rightarrow> nat \<times> nat" where
  "singleLineOffsets match = (m_index match, m_index match + length (m_0 match))"

text \<open>The two offsets that the block scans hand to \<^verbatim>\<open>positionAt\<close> for a line match inside a block match: \<^verbatim>\<open>match.index + line.index + line[2].length\<close> and \<^verbatim>\<open>match.index + line.index + line[0].length\<close>.\<close>

definition blockOffsets :: "rmatch \<Rightarrow> rmatch \<Rightarrow> string \<Rightarrow> nat \<times> nat" where
  "blockOffsets match ln l2 =
     (m_index match + m_index ln + length l2, m_index match + m_index ln + length (m_0 ln))"

text \<open>\<open>0 \<le> start \<le> end \<le> length doc\<close> for a pair of offsets.\<close>

definition within :: "string \<Rightarrow> nat \<times> nat \<Rightarrow> bool" where
  "within doc ab \<longleftrightarrow> 0 \<le> fst ab \<and> fst ab \<le> snd ab \<and> snd ab \<le> length doc"

text \<open>The range from the position of the first offset to the position of the second, in this order.\<close>

definition offsetRange :: "string \<Rightarrow> nat \<times> nat \<Rightarrow> Range" where
  "offsetRange doc ab =
     \<lparr>range_start = positionAt doc (fst ab), range_end = positionAt doc (snd ab)\<rparr>"



text \<open>Two results of a scan agree: the same error, or two parser states related by \<open>R\<close>.\<close>

definition same_result :: "(Parser \<Rightarrow> Parser \<Rightarrow> bool) \<Rightarrow> error + Parser \<Rightarrow> error + Parser \<Rightarrow> bool" where
  "same_result R y y' \<longleftrightarrow>
     (case y of
        Inl e \<Rightarrow> y' = Inl e
      | Inr p \<Rightarrow> (case y' of Inl e \<Rightarrow> False | Inr q \<Rightarrow> R p q))"



text \<open>A doc-style block comment whose marker is followed by a space and a star.\<close>

definition starDocComment :: string where
  "starDocComment = ''/**'' @ [LF] @ '' * ! *x'' @ [LF] @ '' */''"

section \<open>Properties of states, matches and ranges\<close>

text \<open>\<open>extends s s'\<close>: the matcher state \<open>s'\<close> is reached from \<open>s\<close> by consuming input,
  and every capture of \<open>s'\<close> was either there already or is no longer than what was
  consumed.\<close>

definition extends :: "mstate \<Rightarrow> mstate \<Rightarrow> bool" where
  "extends s s' \<longleftrightarrow>
     (\<exists>u. m_rest s = u @ m_rest s') \<and>
     (\<forall>k w. m_caps s' k = Some w \<longrightarrow>
        m_caps s k = Some w \<or> length w + length (m_rest s') \<le> length (m_rest s))"

text \<open>A match lies within the text it was found in, at or after \<^verbatim>\<open>lastIndex\<close>.\<close>

definition match_within :: "string \<Rightarrow> nat \<Rightarrow> rmatch \<Rightarrow> bool" where
  "match_within text lastIndex m \<longleftrightarrow>
     lastIndex \<le> m_index m \<and> m_index m + length (m_0 m) \<le> length text \<and>
     m_0 m = take (length (m_0 m)) (drop (m_index m) text) \<and>
     (\<forall>k w. m_group m k = Some w \<longrightarrow> length w \<le> length (m_0 m))"

text \<open>A range lies within the document when both its ends are positions of offsets
  \<open>a \<le> b \<le> length text\<close>.\<close>

definition in_document :: "string \<Rightarrow> Range \<Rightarrow> bool" where
  "in_document text r \<longleftrightarrow>
     (\<exists>b \<le> length text. \<exists>a \<le> b. r = new_Range (positionAt text a) (positionAt text b))"

definition all_in_document :: "string \<Rightarrow> Parser \<Rightarrow> bool" where
  "all_in_document text p \<longleftrightarrow> (\<forall>t \<in> set (tags p). \<forall>r \<in> set (ranges t). in_document text r)"

text \<open>The parser with every \<^verbatim>\<open>ranges\<close> buffer emptied, as \<^verbatim>\<open>ApplyDecorations\<close> leaves it.\<close>

definition cleared :: "Parser \<Rightarrow> Parser" where
  "cleared p = snd (ApplyDecorations p)"

section \<open>General facts on matching\<close>

declare ms.simps [simp del]

lemma extends_refl: "extends s s"
  by (simp add: extends_def)

lemma extends_trans: "extends s s1 \<Longrightarrow> extends s1 s2 \<Longrightarrow> extends s s2"
  unfolding extends_def
  apply (elim conjE exE)
  apply (rule conjI)
   apply (metis append.assoc)
  apply (intro allI impI)
  subgoal for u v k w
    apply (erule_tac x=k in allE)+
    apply (erule_tac x=w in allE)+
    apply auto
    done
  done

lemma extends_clear: "extends (clear_groups r s) s' \<Longrightarrow> extends s s'"
  unfolding extends_def clear_groups_def
  by (auto split: if_splits)

lemma extends_set_group: "extends s s' \<Longrightarrow> extends s (set_group k s s')"
  unfolding extends_def set_group_def
  by auto

lemma consume_extends: "s' \<in> set (consume ok s) \<Longrightarrow> extends s s'"
  unfolding consume_def extends_def
  by (cases "m_rest s") (auto split: if_splits intro: exI[of _ "[hd (m_rest s)]"])

lemma ms_Star_set:
  "set (ms f (RStar g r) s) =
     insert s (\<Union>s1 \<in> {s1 \<in> set (ms f r (clear_groups r s)). length (m_rest s1) < length (m_rest s)}.
                 set (ms f (RStar g r) s1))"
  by (subst ms.simps) (auto simp: Let_def)

lemma ms_Plus_set:
  "set (ms f (RPlus g r) s) = (\<Union>s1 \<in> set (ms f r (clear_groups r s)). set (ms f (RStar g r) s1))"
  by (subst ms.simps) auto

lemma ms_Opt_set:
  "set (ms f (ROpt g r) s) =
     insert s {s1 \<in> set (ms f r (clear_groups r s)). length (m_rest s1) < length (m_rest s)}"
  by (subst ms.simps) (auto simp: Let_def)

lemma ms_Seq_set: "set (ms f (RSeq a b) s) = (\<Union>s1 \<in> set (ms f a s). set (ms f b s1))"
  by (subst ms.simps) auto

lemma ms_Alt_set: "set (ms f (RAlt a b) s) = set (ms f a s) \<union> set (ms f b s)"
  by (subst ms.simps) auto

lemma ms_Group_set: "set (ms f (RGroup k r) s) = set_group k s ` set (ms f r s)"
  by (subst ms.simps) auto

lemmas ms_atom = ms.simps(1-6)

lemma ms_extends: "s' \<in> set (ms f r s) \<Longrightarrow> extends s s'"
proof (induction f r s arbitrary: s' rule: ms.induct)
  case (7 f a b s)
  then show ?case by (auto simp: ms_Seq_set intro: extends_trans)
next
  case (8 f a b s)
  then show ?case by (auto simp: ms_Alt_set)
next
  case (9 f k r s)
  then show ?case by (auto simp: ms_Group_set intro: extends_set_group)
next
  case (10 f g r s)
  from "10.prems" have "s' = s \<or> (\<exists>s1 \<in> set (ms f r (clear_groups r s)).
      length (m_rest s1) < length (m_rest s) \<and> s' \<in> set (ms f (RStar g r) s1))"
    by (subst (asm) ms_Star_set) auto
  then show ?case
  proof
    assume "s' = s" then show ?thesis by (simp add: extends_refl)
  next
    assume "\<exists>s1 \<in> set (ms f r (clear_groups r s)).
      length (m_rest s1) < length (m_rest s) \<and> s' \<in> set (ms f (RStar g r) s1)"
    then obtain s1 where s1: "s1 \<in> set (ms f r (clear_groups r s))"
      "length (m_rest s1) < length (m_rest s)" "s' \<in> set (ms f (RStar g r) s1)" by blast
    from "10.IH"(1)[OF s1(1)] have "extends s s1" by (rule extends_clear)
    moreover from "10.IH"(2)[OF s1(1) s1(2) s1(3)] have "extends s1 s'" .
    ultimately show ?thesis by (rule extends_trans)
  qed
next
  case (11 f g r s)
  from "11.prems" obtain s1 where s1: "s1 \<in> set (ms f r (clear_groups r s))"
      "s' \<in> set (ms f (RStar g r) s1)" by (auto simp: ms_Plus_set)
  from "11.IH"(1)[OF s1(1)] have "extends s s1" by (rule extends_clear)
  moreover from "11.IH"(2)[OF s1(1) s1(2)] have "extends s1 s'" .
  ultimately show ?case by (rule extends_trans)
next
  case (12 f g r s)
  from "12.prems" have "s' = s \<or> s' \<in> set (ms f r (clear_groups r s))"
    by (auto simp: ms_Opt_set)
  then show ?case using "12.IH" by (auto intro: extends_refl extends_clear)
qed (auto simp: ms_atom extends_refl consume_extends split: if_splits)

lemma match_at_within:
  assumes "match_at re prev rest idx = Some m"
  shows "m_index m = idx \<and> length (m_0 m) \<le> length rest \<and> m_0 m = take (length (m_0 m)) rest \<and>
         (\<forall>k w. m_group m k = Some w \<longrightarrow> length w \<le> length (m_0 m))"
proof -
  let ?s = "\<lparr>m_prev = prev, m_rest = rest, m_caps = (\<lambda>k. None)\<rparr>"
  from assms obtain s' ss where ms: "ms (re_flags re) (re_source re) ?s = s' # ss"
    and m: "m = \<lparr>m_index = idx, m_0 = take (length rest - length (m_rest s')) rest, m_group = m_caps s'\<rparr>"
    by (auto simp: match_at_def split: list.splits)
  from ms have "s' \<in> set (ms (re_flags re) (re_source re) ?s)" by simp
  then have ext: "extends ?s s'" by (rule ms_extends)
  then obtain u where u: "rest = u @ m_rest s'" by (auto simp: extends_def)
  from ext have caps: "\<forall>k w. m_caps s' k = Some w \<longrightarrow> length w + length (m_rest s') \<le> length rest"
    by (auto simp: extends_def)
  from u have len: "length rest - length (m_rest s') = length u" by simp
  show ?thesis using m u caps len by auto
qed

lemma find_match_within:
  "find_match re prev rest idx = Some m \<Longrightarrow>
     idx \<le> m_index m \<and> m_index m + length (m_0 m) \<le> idx + length rest \<and>
     m_0 m = take (length (m_0 m)) (drop (m_index m - idx) rest) \<and>
     (\<forall>k w. m_group m k = Some w \<longrightarrow> length w \<le> length (m_0 m))"
proof (induction re prev rest idx rule: find_match.induct)
  case (1 re prev idx)
  then show ?case using match_at_within[of re prev "[]" idx m] by auto
next
  case (2 re prev c cs idx)
  show ?case
  proof (cases "match_at re prev (c # cs) idx")
    case None
    with 2 have "find_match re (Some c) cs (Suc idx) = Some m" by simp
    from "2.IH"[OF None this] have ih: "Suc idx \<le> m_index m"
      "m_index m + length (m_0 m) \<le> Suc idx + length cs"
      "m_0 m = take (length (m_0 m)) (drop (m_index m - Suc idx) cs)"
      "\<forall>k w. m_group m k = Some w \<longrightarrow> length w \<le> length (m_0 m)" by auto
    from ih(1) have "m_index m - idx = Suc (m_index m - Suc idx)" by simp
    with ih show ?thesis by simp
  next
    case (Some m')
    with "2.prems" have "m' = m" by simp
    with Some match_at_within[of re prev "c # cs" idx m] show ?thesis by auto
  qed
qed

lemma exec_within: "exec re text lastIndex = Some m \<Longrightarrow> match_within text lastIndex m"
  unfolding exec_def match_within_def
  by (auto split: if_splits dest!: find_match_within)

section \<open>General facts on the scans\<close>

lemma in_documentI: "a \<le> b \<Longrightarrow> b \<le> length doc \<Longrightarrow>
  in_document doc (new_Range (positionAt doc a) (positionAt doc b))"
  unfolding in_document_def by blast

lemma pushRange_in_document:
  assumes "all_in_document doc p" "in_document doc r"
  shows "all_in_document doc (pushRange i r p)"
proof (cases "i < length (tags p)")
  case True
  then have "tags p ! i \<in> set (tags p)" by simp
  with assms show ?thesis
    unfolding all_in_document_def pushRange_def
    by (auto dest!: set_update_subset_insert[THEN subsetD])
next
  case False
  then have "(tags p)[i := (tags p ! i)\<lparr>ranges := ranges (tags p ! i) @ [r]\<rparr>] = tags p"
    by (simp add: list_update_beyond)
  with assms show ?thesis
    unfolding all_in_document_def pushRange_def by simp
qed

lemma addMatch_in_document:
  "all_in_document doc p \<Longrightarrow> in_document doc r \<Longrightarrow> addMatch g r p = Inr p' \<Longrightarrow>
   all_in_document doc p'"
  unfolding addMatch_def
  by (auto split: sum.splits option.splits simp: pushRange_in_document)

lemma singleLineBody_in_document:
  assumes "all_in_document doc p" "match_within doc i m" "singleLineBody doc m p = Inr p'"
  shows "all_in_document doc p'"
proof -
  have "in_document doc (new_Range (positionAt doc (m_index m))
          (positionAt doc (m_index m + length (m_0 m))))"
    using assms(2) by (intro in_documentI) (auto simp: match_within_def)
  with assms show ?thesis
    by (auto simp: singleLineBody_def Let_def split: if_splits intro: addMatch_in_document)
qed

lemmas singleLineLoop_induct = singleLineLoop.raw_induct[rotated 1, consumes 1]
lemmas lineLoop_induct = lineLoop.raw_induct[rotated 1, consumes 1]
lemmas blockLoop_induct = blockLoop.raw_induct[rotated 1, consumes 1]

lemma singleLineLoop_in_document:
  "singleLineLoop regEx doc lastIndex p = Some y \<Longrightarrow> all_in_document doc p \<Longrightarrow>
   y = Inr p' \<Longrightarrow> all_in_document doc p'"
proof (induction arbitrary: p' rule: singleLineLoop_induct)
  case (1 loop regEx doc lastIndex p y)
  show ?case
  proof (cases "exec regEx doc lastIndex")
    case None
    with 1 show ?thesis by simp
  next
    case (Some m)
    then have w: "match_within doc lastIndex m" by (rule exec_within)
    from 1(2,4) Some obtain p1 where b: "singleLineBody doc m p = Inr p1"
      and l: "loop regEx doc (m_index m + length (m_0 m)) p1 = Some y"
      by (auto split: sum.splits)
    from singleLineBody_in_document[OF 1(3) w b] have "all_in_document doc p1" .
    from 1(1)[OF l this 1(4)] show ?thesis .
  qed
qed

lemma lineBody_in_document:
  assumes "all_in_document doc p" "match_within doc i match" "match_within (m_0 match) j ln"
    "lineBody doc match ln p = Inr p'"
  shows "all_in_document doc p'"
proof -
  from assms(4) obtain l2 where l2: "m_group ln 2 = Some l2"
    by (auto simp: lineBody_def split: option.splits)
  with assms(3) have "length l2 \<le> length (m_0 ln)" by (auto simp: match_within_def)
  moreover have "m_index match + m_index ln + length (m_0 ln) \<le> length doc"
    using assms(2,3) by (auto simp: match_within_def)
  ultimately have "in_document doc (new_Range (positionAt doc (m_index match + m_index ln + length l2))
          (positionAt doc (m_index match + m_index ln + length (m_0 ln))))"
    by (intro in_documentI) auto
  with assms l2 show ?thesis
    by (auto simp: lineBody_def Let_def intro: addMatch_in_document)
qed

lemma lineLoop_in_document:
  "lineLoop commentRegEx doc match lastIndex p = Some y \<Longrightarrow> match_within doc i match \<Longrightarrow>
   all_in_document doc p \<Longrightarrow> y = Inr p' \<Longrightarrow> all_in_document doc p'"
proof (induction arbitrary: p' rule: lineLoop_induct)
  case (1 loop commentRegEx doc match lastIndex p y)
  show ?case
  proof (cases "exec commentRegEx (m_0 match) lastIndex")
    case None
    with 1 show ?thesis by simp
  next
    case (Some ln)
    then have w: "match_within (m_0 match) lastIndex ln" by (rule exec_within)
    from 1(2,5) Some obtain p1 where b: "lineBody doc match ln p = Inr p1"
      and l: "loop commentRegEx doc match (m_index ln + length (m_0 ln)) p1 = Some y"
      by (auto split: sum.splits)
    from lineBody_in_document[OF 1(4) 1(3) w b] have "all_in_document doc p1" .
    from 1(1)[OF l 1(3) this 1(5)] show ?thesis .
  qed
qed

lemma blockLoop_in_document:
  "blockLoop regEx commentRegEx doc lastIndex p = Some y \<Longrightarrow>
   all_in_document doc p \<Longrightarrow> y = Inr p' \<Longrightarrow> all_in_document doc p'"
proof (induction arbitrary: p' rule: blockLoop_induct)
  case (1 loop regEx commentRegEx doc lastIndex p y)
  show ?case
  proof (cases "exec regEx doc lastIndex")
    case None
    with 1 show ?thesis by simp
  next
    case (Some m)
    then have w: "match_within doc lastIndex m" by (rule exec_within)
    from 1(2,4) Some obtain p1 where b: "lineLoop commentRegEx doc m 0 p = Some (Inr p1)"
      and l: "loop regEx commentRegEx doc (m_index m + length (m_0 m)) p1 = Some y"
      by (auto split: sum.splits option.splits)
    from lineLoop_in_document[OF b w 1(3) refl] have "all_in_document doc p1" .
    from 1(1)[OF l this 1(4)] show ?thesis .
  qed
qed

lemma cleared_idem: "cleared (cleared p) = cleared p"
  by (simp add: cleared_def ApplyDecorations_def comp_def)

lemma cleared_pushRange: "cleared (pushRange i r p) = cleared p"
proof (cases "i < length (tags p)")
  case True
  then show ?thesis
    by (simp add: cleared_def ApplyDecorations_def pushRange_def map_update list_update_same_conv)
next
  case False
  then show ?thesis
    by (simp add: cleared_def ApplyDecorations_def pushRange_def list_update_beyond)
qed

lemma cleared_addMatch: "addMatch g r p = Inr p' \<Longrightarrow> cleared p' = cleared p"
  by (auto simp: addMatch_def cleared_pushRange split: sum.splits option.splits)

lemma cleared_singleLineBody: "singleLineBody doc m p = Inr p' \<Longrightarrow> cleared p' = cleared p"
  by (auto simp: singleLineBody_def Let_def cleared_addMatch split: if_splits)

lemma cleared_singleLineLoop:
  "singleLineLoop regEx doc lastIndex p = Some y \<Longrightarrow> y = Inr p' \<Longrightarrow> cleared p' = cleared p"
proof (induction arbitrary: p' rule: singleLineLoop_induct)
  case (1 loop regEx doc lastIndex p y)
  show ?case
  proof (cases "exec regEx doc lastIndex")
    case None
    with 1 show ?thesis by simp
  next
    case (Some m)
    from 1(2,3) Some obtain p1 where b: "singleLineBody doc m p = Inr p1"
      and l: "loop regEx doc (m_index m + length (m_0 m)) p1 = Some y"
      by (auto split: sum.splits)
    from 1(1)[OF l 1(3)] cleared_singleLineBody[OF b] show ?thesis by simp
  qed
qed

lemma cleared_FindSingleLineComments:
  "FindSingleLineComments doc p = Some (Inr p') \<Longrightarrow> cleared p' = cleared p"
  by (auto simp: FindSingleLineComments_def split: if_splits sum.splits
      dest: cleared_singleLineLoop[OF _ refl])

subsection \<open>Language resolution\<close>

lemma setCommentFormat_fields [simp]:
  "supportedLanguage (setCommentFormat a b c q) = supportedLanguage q"
  "tags (setCommentFormat a b c q) = tags q"
  "expression (setCommentFormat a b c q) = expression q"
  "contributions (setCommentFormat a b c q) = contributions q"
  "isPlainText (setCommentFormat a b c q) = isPlainText q"
  "ignoreFirstLine (setCommentFormat a b c q) = ignoreFirstLine q"
  by (simp_all add: setCommentFormat_def Let_def split: option.splits)

lemma if_branches_cong: "x = u \<Longrightarrow> y = v \<Longrightarrow> (if b then x else y) = (if b then u else v)"
  by simp

lemma setDelimiter_tags [simp]: "tags (setDelimiter l p) = tags p"
  by (simp add: setDelimiter_def Let_def plaintextCase_def if_distrib[of tags] 
       split del: if_split cong: if_branches_cong)

lemma setDelimiter_expression [simp]: "expression (setDelimiter l p) = expression p"
  by (simp add: setDelimiter_def Let_def plaintextCase_def if_distrib[of expression] 
       split del: if_split cong: if_branches_cong)

lemma setDelimiter_contributions [simp]: "contributions (setDelimiter l p) = contributions p"
  by (simp add: setDelimiter_def Let_def plaintextCase_def if_distrib[of contributions] 
       split del: if_split cong: if_branches_cong)

lemma if_then_cong: "(b \<Longrightarrow> x = u) \<Longrightarrow> y = v \<Longrightarrow> (if b then x else y) = (if b then u else v)"
  by simp




lemma setDelimiter_plaintext:
  "setDelimiter ''plaintext'' p =
     p\<lparr>supportedLanguage := highlightPlainText (contributions p), ignoreFirstLine := False,
       isPlainText := True\<rparr>"
  by (simp add: setDelimiter_def Let_def plaintextCase_def)

lemma SetRegex_tags [simp]: "tags (SetRegex l p) = tags p"
  by (simp add: SetRegex_def Let_def)

lemma ranges_newParser: "t \<in> set (tags (newParser cfg)) \<Longrightarrow> ranges t = []"
  by (auto simp: newParser_def setTags_def makeTag_def)

lemma all_in_document_new: "all_in_document doc (SetRegex l (newParser cfg))"
  by (simp add: all_in_document_def ranges_newParser)

lemma observe_SomeD:
  "observe r = Some (Inr m) \<Longrightarrow> \<exists>p. r = Some (Inr p) \<and> rangeMapping p = m"
  by (cases r) (auto simp: observe_def map_sum_def split: sum.splits)

section \<open>The patterns the parser builds, and what they match\<close>

lemma escapeSlash_append: "escapeSlash (xs @ ys) = escapeSlash xs @ escapeSlash ys"
  by (simp add: escapeSlash_def)

lemma escapedMarker_Nil [simp]: "escapedMarker [] = []"
  by (simp add: escapedMarker_def escapeSlash_def escapeSequence_def)

lemma escapedMarker_Cons: "escapedMarker (c # cs) = escapeChar c @ escapedMarker cs"
  by (simp add: escapedMarker_def escapeSlash_def escapeSequence_def escapeChar_def)

lemma escapedMarker_chars: "escapedMarker t = concat (map escapeChar t)"
  by (induction t) (simp_all add: escapedMarker_Cons)

lemma prun_append:
  "prun st (xs @ ys) = (case prun st xs of None \<Rightarrow> None | Some st' \<Rightarrow> prun st' ys)"
  by (induction xs arbitrary: st) (auto split: option.splits)

lemma prun_escapeChar:
  assumes "mode st = MNormal" "stack st = (k, alts, cur) # fs"
  shows "prun st (escapeChar c) =
           Some (st\<lparr>stack := (k, alts, RChar c # cur) # fs, mode := MNormal, lastq := QAtom\<rparr>)"
proof (cases "c \<in> set (''()[{*+.$^'' @ [bsl] @ ''|?/'')")
  case True
  then have "escapeChar c = [bsl, c]" by (simp add: escapeChar_def)
  moreover from True have "c \<in> set syntax_chars" "c \<noteq> CHR ''t''" "c \<noteq> CHR ''n''" "c \<noteq> CHR ''r''"
    "c \<noteq> CHR ''s''" "c \<noteq> CHR ''S''" by (auto simp: syntax_chars_def)
  ultimately show ?thesis using assms
    by (simp add: pstep_def step_normal_def step_escape_def)
next
  case False
  then have "escapeChar c = [c]" by (simp add: escapeChar_def)
  with False show ?thesis using assms
    by (simp add: pstep_def step_normal_def)
qed

lemma prun_escapedMarker:
  assumes "mode st = MNormal" "stack st = (k, alts, cur) # fs"
  shows "prun st (escapedMarker t) =
           Some (st\<lparr>stack := (k, alts, rev (map RChar t) @ cur) # fs, mode := MNormal,
                    lastq := (if t = [] then lastq st else QAtom)\<rparr>)"
  using assms
proof (induction t arbitrary: st cur)
  case Nil
  then show ?case by simp
next
  case (Cons c cs)
  let ?st1 = "st\<lparr>stack := (k, alts, RChar c # cur) # fs, mode := MNormal, lastq := QAtom\<rparr>"
  have 1: "prun st (escapeChar c) = Some ?st1" using Cons.prems by (rule prun_escapeChar)
  have 2: "prun ?st1 (escapedMarker cs) =
       Some (?st1\<lparr>stack := (k, alts, rev (map RChar cs) @ RChar c # cur) # fs, mode := MNormal,
                    lastq := (if cs = [] then lastq ?st1 else QAtom)\<rparr>)"
    by (rule Cons.IH) simp_all
  show ?case
    by (simp add: escapedMarker_Cons prun_append 1 2)
qed

lemma join_Cons: "join sep (x # xs) = x @ (if xs = [] then [] else sep @ join sep xs)"
  by (cases xs) simp_all

lemma hd_escapedMarker: "t \<noteq> [] \<Longrightarrow> escapedMarker t \<noteq> [] \<and> hd (escapedMarker t) \<noteq> CHR ''?''"
  by (cases t) (auto simp: escapedMarker_Cons escapeChar_def)

lemma hd_joined:
  "join ''|'' (map escapedMarker ts) @ CHR '')'' # rest \<noteq> [] \<and>
   hd (join ''|'' (map escapedMarker ts) @ CHR '')'' # rest) \<noteq> CHR ''?''"
proof (cases ts)
  case Nil
  then show ?thesis by simp
next
  case (Cons t ts')
  show ?thesis
  proof (cases "t = []")
    case True
    with Cons show ?thesis by (simp add: join_Cons)
  next
    case False
    with Cons hd_escapedMarker[OF False] show ?thesis by (auto simp: join_Cons)
  qed
qed

lemma prun_group_open:
  assumes "mode st = MGroupOpen" "xs \<noteq> []" "hd xs \<noteq> CHR ''?''"
  shows "prun st xs = prun (open_group True st) xs"
proof (cases xs)
  case Nil
  with assms show ?thesis by simp
next
  case (Cons c cs)
  with assms have "c \<noteq> CHR ''?''" by simp
  then have "pstep st c = pstep (open_group True st) c"
    using assms(1) by (simp add: pstep_def open_group_def)
  with Cons show ?thesis by simp
qed

lemma prun_join:
  assumes "mode st = MNormal" "stack st = (k, alts, []) # fs"
  shows "\<exists>st' alts' cur'. prun st (join ''|'' (map escapedMarker ts)) = Some st' \<and>
           mode st' = MNormal \<and> ngroups st' = ngroups st \<and> stack st' = (k, alts', cur') # fs \<and>
           rev (seq_of cur' # alts') = rev alts @ (if ts = [] then [REmpty] else map lit ts)"
  using assms
proof (induction ts arbitrary: st alts)
  case Nil
  then show ?case by (simp add: seq_of_def)
next
  case (Cons t ts)
  let ?st1 = "st\<lparr>stack := (k, alts, rev (map RChar t) @ []) # fs, mode := MNormal,
                    lastq := (if t = [] then lastq st else QAtom)\<rparr>"
  have 1: "prun st (escapedMarker t) = Some ?st1"
    using Cons.prems by (rule prun_escapedMarker)
  show ?case
  proof (cases "ts = []")
    case True
    with 1 show ?thesis by (simp add: join_Cons lit_def)
  next
    case False
    let ?st2 = "?st1\<lparr>stack := (k, lit t # alts, []) # fs, lastq := QNone\<rparr>"
    have 2: "pstep ?st1 (CHR ''|'') = Some ?st2"
      by (simp add: pstep_def step_normal_def lit_def)
    from Cons.IH[of ?st2 "lit t # alts"] obtain st' alts' cur' where
      3: "prun ?st2 (join ''|'' (map escapedMarker ts)) = Some st'" "mode st' = MNormal"
         "ngroups st' = ngroups st" "stack st' = (k, alts', cur') # fs"
         "rev (seq_of cur' # alts') = rev (lit t # alts) @ (if ts = [] then [REmpty] else map lit ts)"
      by auto
    from False 1 2 3 show ?thesis
      by (simp add: join_Cons prun_append)
  qed
qed

lemma prun_tag_group:
  assumes "mode st = MGroupOpen" "stack st = (k0, alts0, cur0) # fs"
  shows "prun st (join ''|'' (map escapedMarker ts) @ CHR '')'' # rest) =
         prun (st\<lparr>stack := (k0, alts0, RGroup (Suc (ngroups st)) (alternation ts) # cur0) # fs,
                  ngroups := Suc (ngroups st), mode := MNormal, lastq := QAtom\<rparr>) rest"
proof -
  let ?o = "open_group True st"
  have o: "mode ?o = MNormal" "stack ?o = (Some (Suc (ngroups st)), [], []) # (k0, alts0, cur0) # fs"
    "ngroups ?o = Suc (ngroups st)"
    using assms by (simp_all add: open_group_def)
  from prun_join[OF o(1) o(2), of ts] obtain st' alts' cur' where
    j: "prun ?o (join ''|'' (map escapedMarker ts)) = Some st'" "mode st' = MNormal"
       "ngroups st' = ngroups ?o" "stack st' = (Some (Suc (ngroups st)), alts', cur') # (k0, alts0, cur0) # fs"
       "rev (seq_of cur' # alts') = rev [] @ (if ts = [] then [REmpty] else map lit ts)"
    by blast
  have c: "pstep st' (CHR '')'') =
      Some (st'\<lparr>stack := (k0, alts0, RGroup (Suc (ngroups st)) (alternation ts) # cur0) # fs,
                lastq := QAtom\<rparr>)"
    using j(2,4,5) by (simp add: pstep_def step_normal_def alternation_def)
  have e: "st'\<lparr>stack := (k0, alts0, RGroup (Suc (ngroups st)) (alternation ts) # cur0) # fs,
                lastq := QAtom\<rparr> =
           st\<lparr>stack := (k0, alts0, RGroup (Suc (ngroups st)) (alternation ts) # cur0) # fs,
                  ngroups := Suc (ngroups st), mode := MNormal, lastq := QAtom\<rparr>"
    using j(2,3) o(3) by (intro pstate.equality) simp_all
  have "prun st (join ''|'' (map escapedMarker ts) @ CHR '')'' # rest) =
        prun ?o (join ''|'' (map escapedMarker ts) @ CHR '')'' # rest)"
    using assms(1) hd_joined[of ts rest] by (intro prun_group_open) auto
  also have "\<dots> = prun st' (CHR '')'' # rest)"
    by (simp add: prun_append j(1))
  finally show ?thesis using c e by simp
qed

lemma characters_markers: "registry_ok p \<Longrightarrow> characters p = map escapedMarker (markers p)"
  by (simp add: registry_ok_def characters_def markers_def escapedMarker_def)

lemma prun_plainStart:
  "prun pstart (plainStart @ ''('') =
     Some \<lparr>stack = [(None, [], [indentGroup, lineStartGroup])], ngroups = 2, mode = MGroupOpen,
           lastq = QAtom\<rparr>"
  by code_simp

lemma prun_blockLead:
  "prun pstart blockLead =
     Some \<lparr>stack = [(None, [], [indentGroup, lineStartGroup])], ngroups = 2, mode = MGroupOpen,
           lastq = QAtom\<rparr>"
  by code_simp

lemma prun_jsdocLead:
  "prun pstart jsdocLead =
     Some \<lparr>stack = [(None, [], [starIndentGroup, lineStartGroup])], ngroups = 2, mode = MGroupOpen,
           lastq = QAtom\<rparr>"
  by code_simp

lemma finish_from:
  "prun pstart src = Some \<lparr>stack = [(None, [], cur)], ngroups = n, mode = MNormal, lastq = q\<rparr> \<Longrightarrow>
   parse_pattern src = Some (seq_of cur)"
  by (simp add: parse_pattern_def)

lemma parse_singleLine_tail:
  assumes "prun pstart (start @ ''('') =
     Some \<lparr>stack = [(None, [], cur0)], ngroups = 2, mode = MGroupOpen, lastq = q\<rparr>"
  shows "parse_pattern (start @ ''('' @ join ''|'' (map escapedMarker ws) @ '')+(.*)'') =
     Some (seq_of (restOfLineGroup # RPlus True (RGroup 3 (alternation ws)) # cur0))"
proof -
  let ?st = "\<lparr>stack = [(None, [], cur0)], ngroups = 2, mode = MGroupOpen, lastq = q\<rparr>"
  have "prun pstart (start @ ''('' @ join ''|'' (map escapedMarker ws) @ '')+(.*)'') =
        prun ?st (join ''|'' (map escapedMarker ws) @ CHR '')'' # ''+(.*)'')"
    using assms prun_append[of pstart "start @ ''(''" "join ''|'' (map escapedMarker ws) @ '')+(.*)''"]
    by simp
  also have "\<dots> = prun (?st\<lparr>stack := (None, [], RGroup (Suc (ngroups ?st)) (alternation ws) # cur0) # [],
                  ngroups := Suc (ngroups ?st), mode := MNormal, lastq := QAtom\<rparr>) ''+(.*)''"
    by (rule prun_tag_group) simp_all
  also have "\<dots> = Some \<lparr>stack = [(None, [], restOfLineGroup # RPlus True (RGroup 3 (alternation ws)) # cur0)],
                         ngroups = 4, mode = MNormal, lastq = QAtom\<rparr>"
    by (simp add: pstep_def step_normal_def open_group_def restOfLineGroup_def seq_of_def
        eval_nat_numeral)
  finally show ?thesis by (rule finish_from)
qed

lemma parse_plain_expression:
  "parse_pattern (plainStart @ ''('' @ join ''|'' (map escapedMarker ws) @ '')+(.*)'') =
     Some (plainTextRegex ws)"
  using parse_singleLine_tail[OF prun_plainStart, of ws]
  by (simp add: plainTextRegex_def seq_of_def)

lemma parse_line_tail:
  assumes "prun pstart lead =
     Some \<lparr>stack = [(None, [], [indent, lineStartGroup])], ngroups = 2, mode = MGroupOpen, lastq = q\<rparr>"
  shows "parse_pattern (lead @ join ''|'' (map escapedMarker ws) @
           '')([ ]*|[:])+([^*/][^'' @ [bsl] @ ''r'' @ [bsl] @ ''n]*)'') =
     Some (lineRegex indent ws)"
proof -
  let ?st = "\<lparr>stack = [(None, [], [indent, lineStartGroup])], ngroups = 2, mode = MGroupOpen, lastq = q\<rparr>"
  let ?tail = "''([ ]*|[:])+([^*/][^'' @ [bsl] @ ''r'' @ [bsl] @ ''n]*)''"
  have "prun pstart (lead @ join ''|'' (map escapedMarker ws) @ CHR '')'' # ?tail) =
        prun ?st (join ''|'' (map escapedMarker ws) @ CHR '')'' # ?tail)"
    using assms prun_append[of pstart lead] by simp
  also have "\<dots> = prun (?st\<lparr>stack := (None, [], RGroup (Suc (ngroups ?st)) (alternation ws) # [indent, lineStartGroup]) # [],
                  ngroups := Suc (ngroups ?st), mode := MNormal, lastq := QAtom\<rparr>) ?tail"
    by (rule prun_tag_group) simp_all
  also have "\<dots> = Some \<lparr>stack = [(None, [], [contentGroup, separatorGroup, RGroup 3 (alternation ws),
                            indent, lineStartGroup])],
                         ngroups = 5, mode = MNormal, lastq = QAtom\<rparr>"
    by (simp add: pstep_def step_normal_def step_class_def step_class_escape_def open_group_def
        contentGroup_def separatorGroup_def seq_of_def eval_nat_numeral)
  finally have "parse_pattern (lead @ join ''|'' (map escapedMarker ws) @ CHR '')'' # ?tail) =
       Some (seq_of [contentGroup, separatorGroup, RGroup 3 (alternation ws), indent, lineStartGroup])"
    by (rule finish_from)
  then show ?thesis by (simp add: lineRegex_def seq_of_def)
qed

lemma parse_commentMatchString:
  assumes "registry_ok p"
  shows "parse_pattern (commentMatchString blockLead p) = Some (lineRegex indentGroup (markers p))"
    and "parse_pattern (commentMatchString jsdocLead p) = Some (lineRegex starIndentGroup (markers p))"
  using parse_line_tail[OF prun_blockLead, of "markers p"] parse_line_tail[OF prun_jsdocLead, of "markers p"]
  by (simp_all add: commentMatchString_def characters_markers[OF assms])

lemma reachI: "s' \<in> set (ms f r s) \<Longrightarrow> \<exists>u. reach f r s u s'"
  using ms_extends[of s' f r s] by (auto simp: reach_def extends_def)

lemma reach_rest: "reach f r s u s' \<Longrightarrow> m_rest s = u @ m_rest s'"
  by (simp add: reach_def)

lemma reach_Empty: "reach f REmpty s u s' \<longleftrightarrow> u = [] \<and> s' = s"
  by (auto simp: reach_def ms_atom)

lemma reach_Bol: "reach f RBol s u s' \<longleftrightarrow> u = [] \<and> s' = s \<and> at_line_start f s"
  by (auto simp: reach_def ms_atom)

lemma reach_consume:
  "s' \<in> set (consume ok s) \<and> m_rest s = u @ m_rest s' \<longleftrightarrow>
     (\<exists>c. u = [c] \<and> ok c \<and> m_rest s = c # m_rest s' \<and> s' = s\<lparr>m_prev := Some c, m_rest := tl (m_rest s)\<rparr>)"
  by (cases "m_rest s") (auto simp: consume_def)

lemma reach_Char:
  "reach f (RChar a) s u s' \<longleftrightarrow>
     (\<exists>c. u = [c] \<and> Canonicalize (ignoreCase f) a = Canonicalize (ignoreCase f) c \<and>
          m_rest s = c # m_rest s' \<and> s' = s\<lparr>m_prev := Some c, m_rest := tl (m_rest s)\<rparr>)"
  unfolding reach_def ms_atom by (rule reach_consume)

lemma reach_Any:
  "reach f RAny s u s' \<longleftrightarrow>
     (\<exists>c. u = [c] \<and> \<not> is_line_terminator c \<and>
          m_rest s = c # m_rest s' \<and> s' = s\<lparr>m_prev := Some c, m_rest := tl (m_rest s)\<rparr>)"
  unfolding reach_def ms_atom by (rule reach_consume)

lemma reach_Class:
  "reach f (RClass neg its) s u s' \<longleftrightarrow>
     (\<exists>c. u = [c] \<and> (neg \<noteq> (\<exists>it \<in> set its. item_matches f it c)) \<and>
          m_rest s = c # m_rest s' \<and> s' = s\<lparr>m_prev := Some c, m_rest := tl (m_rest s)\<rparr>)"
  unfolding reach_def ms_atom by (rule reach_consume)

lemma reach_Seq:
  "reach f (RSeq a b) s u s' \<longleftrightarrow>
     (\<exists>u1 u2 s1. u = u1 @ u2 \<and> reach f a s u1 s1 \<and> reach f b s1 u2 s')"
proof
  assume "reach f (RSeq a b) s u s'"
  then obtain s1 where s1: "s1 \<in> set (ms f a s)" "s' \<in> set (ms f b s1)" and r: "m_rest s = u @ m_rest s'"
    by (auto simp: reach_def ms_Seq_set)
  from reachI[OF s1(1)] obtain u1 where u1: "reach f a s u1 s1" by blast
  from reachI[OF s1(2)] obtain u2 where u2: "reach f b s1 u2 s'" by blast
  from u1 u2 r have "u = u1 @ u2" by (simp add: reach_def)
  with u1 u2 show "\<exists>u1 u2 s1. u = u1 @ u2 \<and> reach f a s u1 s1 \<and> reach f b s1 u2 s'" by blast
next
  assume "\<exists>u1 u2 s1. u = u1 @ u2 \<and> reach f a s u1 s1 \<and> reach f b s1 u2 s'"
  then show "reach f (RSeq a b) s u s'" by (auto simp: reach_def ms_Seq_set)
qed

lemma reach_Seq_Empty: "reach f (RSeq a REmpty) s u s' \<longleftrightarrow> reach f a s u s'"
  by (auto simp: reach_Seq reach_Empty)

lemma reach_Alt: "reach f (RAlt a b) s u s' \<longleftrightarrow> reach f a s u s' \<or> reach f b s u s'"
  by (auto simp: reach_def ms_Alt_set)

lemma reach_Group:
  "reach f (RGroup k r) s u s' \<longleftrightarrow> (\<exists>s1. reach f r s u s1 \<and> s' = s1\<lparr>m_caps := (m_caps s1)(k := Some u)\<rparr>)"
proof
  assume "reach f (RGroup k r) s u s'"
  then obtain s1 where s1: "s1 \<in> set (ms f r s)" "s' = set_group k s s1" and r: "m_rest s = u @ m_rest s'"
    by (auto simp: reach_def ms_Group_set)
  from s1(2) have rest: "m_rest s' = m_rest s1" by (simp add: set_group_def)
  with r have "take (length (m_rest s) - length (m_rest s1)) (m_rest s) = u" by simp
  with s1 r rest show "\<exists>s1. reach f r s u s1 \<and> s' = s1\<lparr>m_caps := (m_caps s1)(k := Some u)\<rparr>"
    by (auto simp: reach_def set_group_def)
next
  assume "\<exists>s1. reach f r s u s1 \<and> s' = s1\<lparr>m_caps := (m_caps s1)(k := Some u)\<rparr>"
  then obtain s1 where s1: "reach f r s u s1" "s' = s1\<lparr>m_caps := (m_caps s1)(k := Some u)\<rparr>" by blast
  then have "take (length (m_rest s) - length (m_rest s1)) (m_rest s) = u" by (simp add: reach_def)
  with s1 have e: "s' = set_group k s s1" by (simp add: set_group_def)
  from s1(1) have "s1 \<in> set (ms f r s)" "m_rest s = u @ m_rest s1" by (simp_all add: reach_def)
  with e show "reach f (RGroup k r) s u s'"
    unfolding reach_def ms_Group_set by (auto simp: set_group_def intro!: image_eqI[of _ _ s1])
qed

lemma reach_Star:
  "reach f (RStar g r) s u s' \<longleftrightarrow>
     (u = [] \<and> s' = s) \<or>
     (\<exists>u1 u2 s1. u = u1 @ u2 \<and> u1 \<noteq> [] \<and> reach f r (clear_groups r s) u1 s1 \<and>
                  reach f (RStar g r) s1 u2 s')"
proof
  assume a: "reach f (RStar g r) s u s'"
  then have "s' = s \<or> (\<exists>s1 \<in> set (ms f r (clear_groups r s)).
      length (m_rest s1) < length (m_rest s) \<and> s' \<in> set (ms f (RStar g r) s1))"
    unfolding reach_def by (subst (asm) ms_Star_set) auto
  then show "(u = [] \<and> s' = s) \<or>
     (\<exists>u1 u2 s1. u = u1 @ u2 \<and> u1 \<noteq> [] \<and> reach f r (clear_groups r s) u1 s1 \<and>
                  reach f (RStar g r) s1 u2 s')"
  proof
    assume "s' = s" with a show ?thesis by (simp add: reach_def)
  next
    assume "\<exists>s1 \<in> set (ms f r (clear_groups r s)).
      length (m_rest s1) < length (m_rest s) \<and> s' \<in> set (ms f (RStar g r) s1)"
    then obtain s1 where s1: "s1 \<in> set (ms f r (clear_groups r s))"
      "length (m_rest s1) < length (m_rest s)" "s' \<in> set (ms f (RStar g r) s1)" by blast
    from reachI[OF s1(1)] obtain u1 where u1: "reach f r (clear_groups r s) u1 s1" by blast
    from reachI[OF s1(3)] obtain u2 where u2: "reach f (RStar g r) s1 u2 s'" by blast
    from u1 have r1: "m_rest s = u1 @ m_rest s1" by (simp add: reach_def clear_groups_def)
    with s1(2) have "u1 \<noteq> []" by auto
    moreover from r1 u2 a have "u = u1 @ u2" by (simp add: reach_def)
    ultimately show ?thesis using u1 u2 by blast
  qed
next
  assume "(u = [] \<and> s' = s) \<or>
     (\<exists>u1 u2 s1. u = u1 @ u2 \<and> u1 \<noteq> [] \<and> reach f r (clear_groups r s) u1 s1 \<and>
                  reach f (RStar g r) s1 u2 s')"
  then show "reach f (RStar g r) s u s'"
  proof
    assume "u = [] \<and> s' = s"
    then show ?thesis unfolding reach_def by (subst ms_Star_set) simp
  next
    assume "\<exists>u1 u2 s1. u = u1 @ u2 \<and> u1 \<noteq> [] \<and> reach f r (clear_groups r s) u1 s1 \<and>
                  reach f (RStar g r) s1 u2 s'"
    then obtain u1 u2 s1 where x: "u = u1 @ u2" "u1 \<noteq> []" "reach f r (clear_groups r s) u1 s1"
      "reach f (RStar g r) s1 u2 s'" by blast
    from x(3) have r1: "m_rest s = u1 @ m_rest s1" by (simp add: reach_def clear_groups_def)
    with x(2) have "length (m_rest s1) < length (m_rest s)" by simp
    with x r1 show ?thesis unfolding reach_def by (subst ms_Star_set) auto
  qed
qed

lemma reach_Plus:
  "reach f (RPlus g r) s u s' \<longleftrightarrow>
     (\<exists>u1 u2 s1. u = u1 @ u2 \<and> reach f r (clear_groups r s) u1 s1 \<and> reach f (RStar g r) s1 u2 s')"
proof
  assume a: "reach f (RPlus g r) s u s'"
  then obtain s1 where s1: "s1 \<in> set (ms f r (clear_groups r s))" "s' \<in> set (ms f (RStar g r) s1)"
    by (auto simp: reach_def ms_Plus_set)
  from reachI[OF s1(1)] obtain u1 where u1: "reach f r (clear_groups r s) u1 s1" by blast
  from reachI[OF s1(2)] obtain u2 where u2: "reach f (RStar g r) s1 u2 s'" by blast
  from u1 have r1: "m_rest s = u1 @ m_rest s1" by (simp add: reach_def clear_groups_def)
  from r1 u2 a have "u = u1 @ u2" by (simp add: reach_def)
  with u1 u2 show "\<exists>u1 u2 s1. u = u1 @ u2 \<and> reach f r (clear_groups r s) u1 s1 \<and> reach f (RStar g r) s1 u2 s'"
    by blast
next
  assume "\<exists>u1 u2 s1. u = u1 @ u2 \<and> reach f r (clear_groups r s) u1 s1 \<and> reach f (RStar g r) s1 u2 s'"
  then obtain u1 u2 s1 where x: "u = u1 @ u2" "reach f r (clear_groups r s) u1 s1"
      "reach f (RStar g r) s1 u2 s'" by blast
  from x(2) have r1: "m_rest s = u1 @ m_rest s1" by (simp add: reach_def clear_groups_def)
  with x show "reach f (RPlus g r) s u s'" by (auto simp: reach_def ms_Plus_set)
qed

lemma reach_Star_induct [consumes 1, case_names refl step]:
  assumes "reach f (RStar g r) s u s'"
    and "\<And>s. P s [] s"
    and "\<And>s u1 s1 u2 s'. u1 \<noteq> [] \<Longrightarrow> reach f r (clear_groups r s) u1 s1 \<Longrightarrow>
           reach f (RStar g r) s1 u2 s' \<Longrightarrow> P s1 u2 s' \<Longrightarrow> P s (u1 @ u2) s'"
  shows "P s u s'"
  using assms(1)
proof (induction "length (m_rest s)" arbitrary: s u rule: less_induct)
  case less
  from less.prems[unfolded reach_Star[of f g r s u s']]
  show ?case
  proof
    assume "u = [] \<and> s' = s" then show ?thesis using assms(2) by simp
  next
    assume "\<exists>u1 u2 s1. u = u1 @ u2 \<and> u1 \<noteq> [] \<and> reach f r (clear_groups r s) u1 s1 \<and>
                  reach f (RStar g r) s1 u2 s'"
    then obtain u1 u2 s1 where x: "u = u1 @ u2" "u1 \<noteq> []" "reach f r (clear_groups r s) u1 s1"
      "reach f (RStar g r) s1 u2 s'" by blast
    from x(3) have r1: "m_rest s = u1 @ m_rest s1" by (simp add: reach_def clear_groups_def)
    with x(2) have "length (m_rest s1) < length (m_rest s)" by simp
    from less.hyps[OF this x(4)] have "P s1 u2 s'" .
    from assms(3)[OF x(2) x(3) x(4) this] x(1) show ?thesis by simp
  qed
qed

lemma of_char_eq_iff: "(of_char c :: nat) = of_char a \<longleftrightarrow> c = a"
  by (metis char_of_char)

lemma upper_code_fixed:
  assumes "(of_char a :: nat) < 65 \<or> (90 < (of_char a :: nat) \<and> (of_char a :: nat) < 97) \<or>
           (122 < (of_char a :: nat) \<and> (of_char a :: nat) < 181)"
  shows "upper_code c = upper_code a \<longleftrightarrow> c = a"
proof -
  have a: "upper_code a = of_char a" using assms by (auto simp: upper_code_def Let_def)
  have "upper_code c = of_char a \<longleftrightarrow> (of_char c :: nat) = of_char a"
    using assms by (auto simp: upper_code_def Let_def)
  with a show ?thesis by (simp add: of_char_eq_iff)
qed

lemma Canonicalize_fixed:
  assumes "(of_char a :: nat) < 65 \<or> (90 < (of_char a :: nat) \<and> (of_char a :: nat) < 97) \<or>
           (122 < (of_char a :: nat) \<and> (of_char a :: nat) < 181)"
  shows "Canonicalize b a = Canonicalize b c \<longleftrightarrow> c = a"
  using upper_code_fixed[OF assms, of c] by (auto simp: Canonicalize_def of_char_eq_iff)

lemma Canonicalize_punct [simp]:
  "Canonicalize b (CHR '' '') = Canonicalize b c \<longleftrightarrow> c = CHR '' ''"
  "Canonicalize b TAB = Canonicalize b c \<longleftrightarrow> c = TAB"
  "Canonicalize b (CHR '':'') = Canonicalize b c \<longleftrightarrow> c = CHR '':''"
  "Canonicalize b (CHR ''*'') = Canonicalize b c \<longleftrightarrow> c = CHR ''*''"
  "Canonicalize b (CHR ''/'') = Canonicalize b c \<longleftrightarrow> c = CHR ''/''"
  "Canonicalize b (CHR ''#'') = Canonicalize b c \<longleftrightarrow> c = CHR ''#''"
  "Canonicalize b CR = Canonicalize b c \<longleftrightarrow> c = CR"
  "Canonicalize b LF = Canonicalize b c \<longleftrightarrow> c = LF"
  by (rule Canonicalize_fixed, simp)+

lemma reach_caps_other:
  "s' \<in> set (ms f r s) \<Longrightarrow> k \<notin> set (groups_in r) \<Longrightarrow> m_caps s' k = m_caps s k"
proof (induction f r s arbitrary: s' rule: ms.induct)
  case (7 f a b s)
  then show ?case by (fastforce simp: ms_Seq_set)
next
  case (8 f a b s)
  then show ?case by (auto simp: ms_Alt_set)
next
  case (9 f j r s)
  then show ?case by (auto simp: ms_Group_set set_group_def)
next
  case (10 f g r s)
  from "10.prems"(1) have "s' = s \<or> (\<exists>s1 \<in> set (ms f r (clear_groups r s)).
      length (m_rest s1) < length (m_rest s) \<and> s' \<in> set (ms f (RStar g r) s1))"
    by (subst (asm) ms_Star_set) auto
  then show ?case
  proof
    assume "s' = s" then show ?thesis by simp
  next
    assume "\<exists>s1 \<in> set (ms f r (clear_groups r s)).
      length (m_rest s1) < length (m_rest s) \<and> s' \<in> set (ms f (RStar g r) s1)"
    then obtain s1 where s1: "s1 \<in> set (ms f r (clear_groups r s))"
      "length (m_rest s1) < length (m_rest s)" "s' \<in> set (ms f (RStar g r) s1)" by blast
    from "10.prems"(2) have k: "k \<notin> set (groups_in r)" by simp
    from "10.IH"(1)[OF s1(1) k] have "m_caps s1 k = m_caps s k" using k by (simp add: clear_groups_def)
    moreover from "10.IH"(2)[OF s1(1) s1(2) s1(3) "10.prems"(2)] have "m_caps s' k = m_caps s1 k" .
    ultimately show ?thesis by simp
  qed
next
  case (11 f g r s)
  from "11.prems"(1) obtain s1 where s1: "s1 \<in> set (ms f r (clear_groups r s))"
      "s' \<in> set (ms f (RStar g r) s1)" by (auto simp: ms_Plus_set)
  from "11.prems"(2) have k: "k \<notin> set (groups_in r)" "k \<notin> set (groups_in (RStar g r))" by simp_all
  from "11.IH"(1)[OF s1(1) k(1)] have "m_caps s1 k = m_caps s k" using k by (simp add: clear_groups_def)
  moreover from "11.IH"(2)[OF s1(1) s1(2) k(2)] have "m_caps s' k = m_caps s1 k" .
  ultimately show ?case by simp
next
  case (12 f g r s)
  from "12.prems"(1) have "s' = s \<or> s' \<in> set (ms f r (clear_groups r s))"
    by (auto simp: ms_Opt_set)
  then show ?case using "12.IH" "12.prems"(2) by (auto simp: clear_groups_def)
qed (auto simp: ms_atom consume_def split: if_splits list.splits)

lemma reach_caps: "reach f r s u s' \<Longrightarrow> k \<notin> set (groups_in r) \<Longrightarrow> m_caps s' k = m_caps s k"
  by (auto simp: reach_def dest: reach_caps_other)

lemma reach_lit: "reach f (lit w) s u s' \<Longrightarrow> ci f u w"
proof (induction w arbitrary: s u)
  case Nil
  then show ?case by (simp add: lit_def seq_of_def reach_Empty ci_def)
next
  case (Cons a w)
  from Cons.prems have "reach f (RSeq (RChar a) (lit w)) s u s'"
    by (simp add: lit_def seq_of_def)
  then obtain u1 u2 s1 where x: "u = u1 @ u2" "reach f (RChar a) s u1 s1" "reach f (lit w) s1 u2 s'"
    by (auto simp: reach_Seq)
  from x(2) obtain c where c: "u1 = [c]" "Canonicalize (ignoreCase f) a = Canonicalize (ignoreCase f) c"
    by (auto simp: reach_Char)
  from Cons.IH[OF x(3)] c x(1) show ?case by (simp add: ci_def)
qed

lemma alt_of_reach:
  "reach f (alt_of rs) s u s' \<Longrightarrow> rs \<noteq> [] \<Longrightarrow> \<exists>r \<in> set rs. reach f r s u s'"
  by (induction rs rule: alt_of.induct) (auto simp: reach_Alt)

lemma reach_alternation:
  "reach f (alternation ws) s u s' \<Longrightarrow> (ws = [] \<and> u = []) \<or> (\<exists>t \<in> set ws. ci f u t)"
proof (cases "ws = []")
  case True
  then show "reach f (alternation ws) s u s' \<Longrightarrow> ?thesis"
    by (simp add: alternation_def reach_Empty)
next
  case False
  assume "reach f (alternation ws) s u s'"
  with False have "reach f (alt_of (map lit ws)) s u s'" by (simp add: alternation_def)
  from alt_of_reach[OF this] False obtain t where "t \<in> set ws" "reach f (lit t) s u s'" by auto
  then show ?thesis by (auto dest: reach_lit)
qed

lemma reach_Star_set:
  assumes "reach f (RStar g r) s u s'"
    and "\<And>s u s'. reach f r s u s' \<Longrightarrow> set u \<subseteq> A"
  shows "set u \<subseteq> A"
  using assms(1)
proof (induction rule: reach_Star_induct)
  case (refl s)
  then show ?case by simp
next
  case (step s u1 s1 u2 s')
  with assms(2)[OF step(2)] show ?case by simp
qed

lemma reach_lineStartGroup: "reach f lineStartGroup s u s' \<Longrightarrow> u = [] \<and> at_line_start f s"
proof -
  assume "reach f lineStartGroup s u s'"
  then obtain u1 u2 s1 where x: "u = u1 @ u2"
    "reach f (RGroup 1 (RSeq RBol REmpty)) (clear_groups (RGroup 1 (RSeq RBol REmpty)) s) u1 s1"
    "reach f (RStar True (RGroup 1 (RSeq RBol REmpty))) s1 u2 s'"
    by (auto simp: lineStartGroup_def reach_Plus)
  from x(2) have 1: "u1 = []" "at_line_start f s"
    by (auto simp: reach_Group reach_Seq reach_Empty reach_Bol clear_groups_def at_line_start_def)
  from x(3) have "set u2 \<subseteq> {}"
    by (rule reach_Star_set) (auto simp: reach_Group reach_Seq reach_Empty reach_Bol)
  with 1 x(1) show ?thesis by simp
qed

lemma reach_wsStar: "reach f (RStar True wsClass) s u s' \<Longrightarrow> set u \<subseteq> {CHR '' '', TAB}"
  by (rule reach_Star_set) (auto simp: wsClass_def reach_Class)

lemma reach_indentGroup:
  "reach f indentGroup s u s' \<Longrightarrow> set u \<subseteq> {CHR '' '', TAB} \<and> m_caps s' 2 = Some u"
  by (auto simp: indentGroup_def reach_Group reach_Seq reach_Empty dest!: reach_wsStar)

lemma reach_starIndentGroup:
  "reach f starIndentGroup s u s' \<Longrightarrow>
     (\<exists>a b. u = a @ CHR ''*'' # b \<and> set a \<subseteq> {CHR '' '', TAB} \<and> set b \<subseteq> {CHR '' '', TAB}) \<and>
     m_caps s' 2 = Some u"
  by (auto simp: starIndentGroup_def reach_Group reach_Seq reach_Empty reach_Char dest!: reach_wsStar)

lemma reach_separatorGroup: "reach f separatorGroup s u s' \<Longrightarrow> set u \<subseteq> {CHR '' '', CHR '':''}"
proof -
  let ?g = "RGroup 4 (RAlt (RSeq (RStar True (RClass False [CLit CHR '' ''])) REmpty)
                                (RSeq (RClass False [CLit CHR '':'']) REmpty))"
  have sp: "\<And>s u s'. reach f (RStar True (RClass False [CLit CHR '' ''])) s u s' \<Longrightarrow> set u \<subseteq> {CHR '' ''}"
    by (rule reach_Star_set) (auto simp: reach_Class)
  have g: "\<And>s u s'. reach f ?g s u s' \<Longrightarrow> set u \<subseteq> {CHR '' '', CHR '':''}"
    by (auto simp: reach_Group reach_Alt reach_Seq reach_Empty reach_Class dest!: sp)
  assume "reach f separatorGroup s u s'"
  then obtain u1 u2 s1 where x: "u = u1 @ u2" "reach f ?g (clear_groups ?g s) u1 s1"
    "reach f (RStar True ?g) s1 u2 s'"
    by (auto simp: separatorGroup_def reach_Plus)
  from g[OF x(2)] reach_Star_set[OF x(3), of "{CHR '' '', CHR '':''}"] g x(1) show ?thesis
    by auto
qed

lemma reach_contentGroup:
  "reach f contentGroup s u s' \<Longrightarrow>
     (\<exists>c rest. u = c # rest \<and> c \<noteq> CHR ''*'' \<and> c \<noteq> CHR ''/'' \<and> CR \<notin> set rest \<and> LF \<notin> set rest) \<and>
     m_caps s' 5 = Some u"
proof -
  have st: "\<And>s u s'. reach f (RStar True (RClass True [CLit CR, CLit LF])) s u s' \<Longrightarrow> set u \<subseteq> - {CR, LF}"
    by (rule reach_Star_set) (auto simp: reach_Class)
  assume "reach f contentGroup s u s'"
  then show ?thesis
    by (auto simp: contentGroup_def reach_Group reach_Seq reach_Empty reach_Class dest!: st)
qed

lemma find_index_of_Some:
  "find_index_of w ts = Some i \<Longrightarrow> i < length ts \<and> toLowerCase (tag (ts ! i)) = toLowerCase w"
proof (induction ts arbitrary: i)
  case Nil
  then show ?case by simp
next
  case (Cons t ts)
  then show ?case by (cases "toLowerCase (tag t) = toLowerCase w") auto
qed

lemma pushRange_markers [simp]: "map tag (tags (pushRange i r p)) = map tag (tags p)"
  by (cases "i < length (tags p)") (simp_all add: pushRange_def map_update list_update_same_conv list_update_beyond)

lemma pushRange_ok:
  assumes "ranges_ok Q p" "i < length (tags p)" "Q (tag (tags p ! i)) r"
  shows "ranges_ok Q (pushRange i r p)"
proof -
  from assms(2) have m: "tags p ! i \<in> set (tags p)" by simp
  show ?thesis
    unfolding ranges_ok_def pushRange_def
  proof (intro ballI)
    fix t r'
    assume t: "t \<in> set (tags (p\<lparr>tags := (tags p)[i := (tags p ! i)\<lparr>ranges := ranges (tags p ! i) @ [r]\<rparr>]\<rparr>))"
      and r': "r' \<in> set (ranges t)"
    from t have "t \<in> insert ((tags p ! i)\<lparr>ranges := ranges (tags p ! i) @ [r]\<rparr>) (set (tags p))"
      using set_update_subset_insert[of "tags p" i] by auto
    then show "Q (tag t) r'"
    proof
      assume "t = (tags p ! i)\<lparr>ranges := ranges (tags p ! i) @ [r]\<rparr>"
      with r' m assms(1,3) show ?thesis by (auto simp: ranges_ok_def)
    next
      assume "t \<in> set (tags p)"
      with r' assms(1) show ?thesis by (auto simp: ranges_ok_def)
    qed
  qed
qed

lemma pushRange_ignoreFirstLine [simp]: "ignoreFirstLine (pushRange i r p) = ignoreFirstLine p"
  by (simp add: pushRange_def)

lemma addMatch_markers:
  "addMatch g r p = Inr p' \<Longrightarrow>
     map tag (tags p') = map tag (tags p) \<and> ignoreFirstLine p' = ignoreFirstLine p"
  by (auto simp: addMatch_def split: sum.splits option.splits)

lemma findTag_Some:
  "findTag ts g = Inr (Some i) \<Longrightarrow>
     \<exists>w. g = Some w \<and> i < length ts \<and> toLowerCase (tag (ts ! i)) = toLowerCase w"
  by (cases ts; cases g) (auto dest: find_index_of_Some simp del: find_index_of.simps)

lemma addMatch_ok:
  assumes "ranges_ok Q p" "addMatch g r p = Inr p'"
    and "\<And>w mk. g = Some w \<Longrightarrow> mk \<in> set (map tag (tags p)) \<Longrightarrow> toLowerCase mk = toLowerCase w \<Longrightarrow> Q mk r"
  shows "ranges_ok Q p'"
proof (cases "findTag (tags p) g")
  case (Inl e)
  with assms(2) show ?thesis by (simp add: addMatch_def)
next
  case (Inr found)
  show ?thesis
  proof (cases found)
    case None
    with Inr assms(1,2) show ?thesis by (simp add: addMatch_def)
  next
    case (Some i)
    with Inr have f: "findTag (tags p) g = Inr (Some i)" by simp
    from findTag_Some[OF f] obtain w where w: "g = Some w" "i < length (tags p)"
      "toLowerCase (tag (tags p ! i)) = toLowerCase w" by blast
    from w(2) have "tag (tags p ! i) \<in> set (map tag (tags p))" by simp
    from assms(3)[OF w(1) this w(3)] have "Q (tag (tags p ! i)) r" .
    from pushRange_ok[OF assms(1) w(2) this] f assms(2) show ?thesis by (simp add: addMatch_def)
  qed
qed

lemma singleLineBody_markers:
  "singleLineBody doc m p = Inr p' \<Longrightarrow> map tag (tags p') = map tag (tags p) \<and> ignoreFirstLine p' = ignoreFirstLine p"
  by (auto simp: singleLineBody_def Let_def split: if_splits dest: addMatch_markers)

lemma singleLineBody_ok:
  assumes "ranges_ok Q p" "singleLineBody doc m p = Inr p'"
    and "\<And>w mk. m_group m 3 = Some w \<Longrightarrow> mk \<in> set (map tag (tags p)) \<Longrightarrow>
           toLowerCase mk = toLowerCase w \<Longrightarrow>
           \<not> (ignoreFirstLine p \<and> positionAt doc (m_index m) = origin) \<Longrightarrow>
           Q mk (new_Range (positionAt doc (m_index m)) (positionAt doc (m_index m + length (m_0 m))))"
  shows "ranges_ok Q p'"
proof (cases "ignoreFirstLine p \<and> line (positionAt doc (m_index m)) = 0 \<and>
              character (positionAt doc (m_index m)) = 0")
  case True
  with assms(1,2) show ?thesis by (simp add: singleLineBody_def Let_def)
next
  case False
  then have n: "\<not> (ignoreFirstLine p \<and> positionAt doc (m_index m) = origin)"
    by (auto simp: origin_def)
  from False assms(2) have a: "addMatch (m_group m 3)
      (new_Range (positionAt doc (m_index m)) (positionAt doc (m_index m + length (m_0 m)))) p = Inr p'"
    by (auto simp: singleLineBody_def Let_def split: if_splits)
  show ?thesis
    by (rule addMatch_ok[OF assms(1) a]) (rule assms(3)[OF _ _ _ n])
qed

lemma singleLineLoop_ok:
  assumes "singleLineLoop regEx doc lastIndex p = Some y" "y = Inr p'" "ranges_ok Q p"
    "map tag (tags p) = mks" "ignoreFirstLine p = ifl"
    and "\<And>i m w mk. exec regEx doc i = Some m \<Longrightarrow> m_group m 3 = Some w \<Longrightarrow> mk \<in> set mks \<Longrightarrow>
           toLowerCase mk = toLowerCase w \<Longrightarrow>
           \<not> (ifl \<and> positionAt doc (m_index m) = origin) \<Longrightarrow>
           Q mk (new_Range (positionAt doc (m_index m)) (positionAt doc (m_index m + length (m_0 m))))"
  shows "ranges_ok Q p'"
  using assms
proof (induction arbitrary: p' rule: singleLineLoop_induct)
  case (1 loop regEx doc lastIndex p y)
  show ?case
  proof (cases "exec regEx doc lastIndex")
    case None
    with 1 show ?thesis by simp
  next
    case (Some m)
    from 1(2,3) Some obtain p1 where b: "singleLineBody doc m p = Inr p1"
      and l: "loop regEx doc (m_index m + length (m_0 m)) p1 = Some y"
      by (auto split: sum.splits)
    have "ranges_ok Q p1"
      by (rule singleLineBody_ok[OF 1(4) b]) (use 1(5,6) 1(7)[OF Some] in auto)
    moreover from singleLineBody_markers[OF b] 1(5,6)
    have "map tag (tags p1) = mks" "ignoreFirstLine p1 = ifl" by simp_all
    ultimately show ?thesis using 1(1)[OF l 1(3)] 1(7) by blast
  qed
qed

lemma lineBody_ok:
  assumes "ranges_ok Q p" "lineBody doc match ln p = Inr p'"
    and "\<And>w l2 mk. m_group ln 3 = Some w \<Longrightarrow> m_group ln 2 = Some l2 \<Longrightarrow>
           mk \<in> set (map tag (tags p)) \<Longrightarrow> toLowerCase mk = toLowerCase w \<Longrightarrow>
           Q mk (new_Range (positionAt doc (m_index match + m_index ln + length l2))
                           (positionAt doc (m_index match + m_index ln + length (m_0 ln))))"
  shows "ranges_ok Q p' \<and> map tag (tags p') = map tag (tags p)"
proof -
  from assms(2) obtain l2 where l2: "m_group ln 2 = Some l2"
    and a: "addMatch (m_group ln 3)
       (new_Range (positionAt doc (m_index match + m_index ln + length l2))
                  (positionAt doc (m_index match + m_index ln + length (m_0 ln)))) p = Inr p'"
    by (auto simp: lineBody_def Let_def split: option.splits)
  have "ranges_ok Q p'"
    by (rule addMatch_ok[OF assms(1) a]) (rule assms(3)[OF _ l2])
  with addMatch_markers[OF a] show ?thesis by simp
qed

lemma lineLoop_ok:
  assumes "lineLoop commentRegEx doc match lastIndex p = Some y" "y = Inr p'" "ranges_ok Q p"
    "map tag (tags p) = mks"
    and "\<And>j ln w l2 mk. exec commentRegEx (m_0 match) j = Some ln \<Longrightarrow> m_group ln 3 = Some w \<Longrightarrow>
           m_group ln 2 = Some l2 \<Longrightarrow> mk \<in> set mks \<Longrightarrow> toLowerCase mk = toLowerCase w \<Longrightarrow>
           Q mk (new_Range (positionAt doc (m_index match + m_index ln + length l2))
                           (positionAt doc (m_index match + m_index ln + length (m_0 ln))))"
  shows "ranges_ok Q p' \<and> map tag (tags p') = mks"
  using assms
proof (induction arbitrary: p' rule: lineLoop_induct)
  case (1 loop commentRegEx doc match lastIndex p y)
  show ?case
  proof (cases "exec commentRegEx (m_0 match) lastIndex")
    case None
    with 1 show ?thesis by simp
  next
    case (Some ln)
    from 1(2,3) Some obtain p1 where b: "lineBody doc match ln p = Inr p1"
      and l: "loop commentRegEx doc match (m_index ln + length (m_0 ln)) p1 = Some y"
      by (auto split: sum.splits)
    have "ranges_ok Q p1 \<and> map tag (tags p1) = map tag (tags p)"
      by (rule lineBody_ok[OF 1(4) b]) (use 1(5) 1(6)[OF Some] in auto)
    with 1(5) have "ranges_ok Q p1" "map tag (tags p1) = mks" by simp_all
    then show ?thesis using 1(1)[OF l 1(3)] 1(6) by blast
  qed
qed

lemma blockLoop_ok:
  assumes "blockLoop regEx commentRegEx doc lastIndex p = Some y" "y = Inr p'" "ranges_ok Q p"
    "map tag (tags p) = mks"
    and "\<And>i match j ln w l2 mk. exec regEx doc i = Some match \<Longrightarrow>
           exec commentRegEx (m_0 match) j = Some ln \<Longrightarrow> m_group ln 3 = Some w \<Longrightarrow>
           m_group ln 2 = Some l2 \<Longrightarrow> mk \<in> set mks \<Longrightarrow> toLowerCase mk = toLowerCase w \<Longrightarrow>
           Q mk (new_Range (positionAt doc (m_index match + m_index ln + length l2))
                           (positionAt doc (m_index match + m_index ln + length (m_0 ln))))"
  shows "ranges_ok Q p'"
  using assms
proof (induction arbitrary: p' rule: blockLoop_induct)
  case (1 loop regEx commentRegEx doc lastIndex p y)
  show ?case
  proof (cases "exec regEx doc lastIndex")
    case None
    with 1 show ?thesis by simp
  next
    case (Some m)
    from 1(2,3) Some obtain p1 where b: "lineLoop commentRegEx doc m 0 p = Some (Inr p1)"
      and l: "loop regEx commentRegEx doc (m_index m + length (m_0 m)) p1 = Some y"
      by (auto split: sum.splits option.splits)
    have "ranges_ok Q p1 \<and> map tag (tags p1) = mks"
      by (rule lineLoop_ok[OF b refl 1(4) 1(5)]) (rule 1(6)[OF Some])
    then show ?thesis using 1(1)[OF l 1(3)] 1(6) by blast
  qed
qed

lemma match_at_reach:
  assumes "match_at re prev rest idx = Some m"
  shows "\<exists>s' ss. ms (re_flags re) (re_source re) (start_state prev rest) = s' # ss \<and>
           reach (re_flags re) (re_source re) (start_state prev rest) (m_0 m) s' \<and>
           m_group m = m_caps s' \<and> m_index m = idx"
proof -
  let ?s = "start_state prev rest"
  from assms obtain s' ss where ms: "ms (re_flags re) (re_source re) ?s = s' # ss"
    and m: "m = \<lparr>m_index = idx, m_0 = take (length rest - length (m_rest s')) rest, m_group = m_caps s'\<rparr>"
    by (auto simp: match_at_def start_state_def split: list.splits)
  from ms have "s' \<in> set (ms (re_flags re) (re_source re) ?s)" by simp
  from reachI[OF this] obtain u where u: "reach (re_flags re) (re_source re) ?s u s'" by blast
  then have "rest = u @ m_rest s'" by (simp add: reach_def start_state_def)
  then have "take (length rest - length (m_rest s')) rest = u" by simp
  with m u ms show ?thesis by auto
qed

lemma find_match_at:
  "find_match re prev rest idx = Some m \<Longrightarrow>
     \<exists>k \<le> length rest. m_index m = idx + k \<and>
        match_at re (if k = 0 then prev else Some (rest ! (k - 1))) (drop k rest) (idx + k) = Some m"
proof (induction re prev rest idx rule: find_match.induct)
  case (1 re prev idx)
  then show ?case using match_at_within[of re prev "[]" idx m] by auto
next
  case (2 re prev c cs idx)
  show ?case
  proof (cases "match_at re prev (c # cs) idx")
    case None
    with 2 have "find_match re (Some c) cs (Suc idx) = Some m" by simp
    from "2.IH"[OF None this] obtain k where k: "k \<le> length cs" "m_index m = Suc idx + k"
      "match_at re (if k = 0 then Some c else Some (cs ! (k - 1))) (drop k cs) (Suc idx + k) = Some m"
      by blast
    have "(if k = 0 then Some c else Some (cs ! (k - 1))) = Some ((c # cs) ! k)"
      by (cases k) simp_all
    with k show ?thesis by (intro exI[of _ "Suc k"]) simp
  next
    case (Some m')
    with "2.prems" have "m' = m" by simp
    with Some match_at_within[of re prev "c # cs" idx m] show ?thesis
      by (intro exI[of _ 0]) simp
  qed
qed

lemma exec_match_at:
  assumes "exec re doc i = Some m"
  shows "i \<le> m_index m \<and> m_index m \<le> length doc \<and>
         match_at re (prev_at doc (m_index m)) (drop (m_index m) doc) (m_index m) = Some m"
proof -
  from assms have i: "i \<le> length doc"
    and f: "find_match re (if i = 0 then None else Some (doc ! (i - 1))) (drop i doc) i = Some m"
    by (auto simp: exec_def split: if_splits)
  from find_match_at[OF f] obtain k where k: "k \<le> length (drop i doc)" "m_index m = i + k"
    "match_at re (if k = 0 then (if i = 0 then None else Some (doc ! (i - 1))) else Some (drop i doc ! (k - 1)))
       (drop k (drop i doc)) (i + k) = Some m" by blast
  have "(if k = 0 then (if i = 0 then None else Some (doc ! (i - 1))) else Some (drop i doc ! (k - 1)))
        = prev_at doc (i + k)"
    using k(1) i by (cases k) (auto simp: prev_at_def)
  with k i show ?thesis by (simp add: add.commute)
qed

lemma groups_in_lit [simp]: "groups_in (lit w) = []"
  by (induction w) (simp_all add: lit_def seq_of_def)

lemma groups_in_alt_of: "(\<And>r. r \<in> set rs \<Longrightarrow> groups_in r = []) \<Longrightarrow> groups_in (alt_of rs) = []"
  by (induction rs rule: alt_of.induct) auto

lemma groups_in_alternation [simp]: "groups_in (alternation ws) = []"
  by (auto simp: alternation_def intro!: groups_in_alt_of)

lemma lineRegex_reach:
  assumes "reach f (lineRegex indent ws) s u s'"
    and "\<And>s u s'. reach f indent s u s' \<Longrightarrow> m_caps s' 2 = Some u"
  shows "\<exists>lead w sep c body. u = lead @ w @ sep @ c # body \<and> m_caps s' 2 = Some lead \<and>
           m_caps s' 3 = Some w \<and>
           ((ws = [] \<and> w = []) \<or> (\<exists>t \<in> set ws. ci f w t)) \<and>
           set sep \<subseteq> {CHR '' '', CHR '':''} \<and> c \<noteq> CHR ''*'' \<and> c \<noteq> CHR ''/'' \<and>
           CR \<notin> set body \<and> LF \<notin> set body"
proof -
  from assms(1) obtain u0 s0 lead s2 w s3 sep s4 x where
    d: "u = u0 @ lead @ w @ sep @ x"
    "reach f lineStartGroup s u0 s0" "reach f indent s0 lead s2"
    "reach f (RGroup 3 (alternation ws)) s2 w s3" "reach f separatorGroup s3 sep s4"
    "reach f contentGroup s4 x s'"
    by (auto simp: lineRegex_def reach_Seq reach_Empty)
  from reach_lineStartGroup[OF d(2)] have u0: "u0 = []" by simp
  from assms(2)[OF d(3)] have c2: "m_caps s2 2 = Some lead" .
  from d(4) obtain s3' where g3: "reach f (alternation ws) s2 w s3'" "m_caps s3 3 = Some w"
    by (auto simp: reach_Group)
  have "m_caps s3 2 = m_caps s2 2" by (rule reach_caps[OF d(4)]) simp
  moreover have "m_caps s4 2 = m_caps s3 2" "m_caps s4 3 = m_caps s3 3"
    by (rule reach_caps[OF d(5)], simp add: separatorGroup_def)+
  moreover have "m_caps s' 2 = m_caps s4 2" "m_caps s' 3 = m_caps s4 3"
    by (rule reach_caps[OF d(6)], simp add: contentGroup_def)+
  ultimately have caps: "m_caps s' 2 = Some lead" "m_caps s' 3 = Some w" using c2 g3(2) by simp_all
  from reach_contentGroup[OF d(6)] obtain c body where x: "x = c # body" "c \<noteq> CHR ''*''"
    "c \<noteq> CHR ''/''" "CR \<notin> set body" "LF \<notin> set body" by blast
  from reach_alternation[OF g3(1)] reach_separatorGroup[OF d(5)] d(1) u0 caps x show ?thesis
    by auto
qed

lemma new_RegExp_commentMatchString:
  assumes "registry_ok p"
  shows "new_RegExp (commentMatchString blockLead p) ''igm'' =
           Inr \<lparr>re_source = lineRegex indentGroup (markers p),
                re_flags = \<lparr>ignoreCase = True, multiline = True\<rparr>\<rparr>"
    and "new_RegExp (commentMatchString jsdocLead p) ''igm'' =
           Inr \<lparr>re_source = lineRegex starIndentGroup (markers p),
                re_flags = \<lparr>ignoreCase = True, multiline = True\<rparr>\<rparr>"
  by (simp_all add: new_RegExp_def parse_commentMatchString[OF assms])

lemma take_drop_nested:
  assumes "M = take k (drop a doc)" "L = take n (drop b M)" "b + n \<le> length M"
  shows "L = take n (drop (a + b) doc)"
proof -
  from assms(1,3) have "b + n \<le> k" by simp
  then have "min n (k - b) = n" by simp
  with assms(1,2) show ?thesis by (simp add: drop_take add.commute)
qed

lemma lineRegex_exec:
  assumes "exec \<lparr>re_source = lineRegex indent ws, re_flags = f\<rparr> block j = Some ln"
    and "\<And>s u s'. reach f indent s u s' \<Longrightarrow> m_caps s' 2 = Some u"
  shows "\<exists>lead w sep c body. m_0 ln = lead @ w @ sep @ c # body \<and> m_group ln 2 = Some lead \<and>
           m_group ln 3 = Some w \<and>
           set sep \<subseteq> {CHR '' '', CHR '':''} \<and> c \<noteq> CHR ''*'' \<and> c \<noteq> CHR ''/'' \<and>
           CR \<notin> set body \<and> LF \<notin> set body"
proof -
  let ?re = "\<lparr>re_source = lineRegex indent ws, re_flags = f\<rparr>"
  from exec_match_at[OF assms(1)]
  have "match_at ?re (prev_at block (m_index ln)) (drop (m_index ln) block) (m_index ln) = Some ln"
    by simp
  from match_at_reach[OF this] obtain s' where
    r: "reach f (lineRegex indent ws) (start_state (prev_at block (m_index ln)) (drop (m_index ln) block))
          (m_0 ln) s'" and g: "m_group ln = m_caps s'" by auto
  have "\<exists>lead w sep c body. m_0 ln = lead @ w @ sep @ c # body \<and> m_caps s' 2 = Some lead \<and>
           m_caps s' 3 = Some w \<and>
           ((ws = [] \<and> w = []) \<or> (\<exists>t \<in> set ws. ci f w t)) \<and>
           set sep \<subseteq> {CHR '' '', CHR '':''} \<and> c \<noteq> CHR ''*'' \<and> c \<noteq> CHR ''/'' \<and>
           CR \<notin> set body \<and> LF \<notin> set body"
    by (rule lineRegex_reach[OF r]) (rule assms(2))
  then obtain lead w sep c body where "m_0 ln = lead @ w @ sep @ c # body" "m_caps s' 2 = Some lead"
    "m_caps s' 3 = Some w" "set sep \<subseteq> {CHR '' '', CHR '':''}" "c \<noteq> CHR ''*''" "c \<noteq> CHR ''/''"
    "CR \<notin> set body" "LF \<notin> set body" by blast
  with g show ?thesis by auto
qed

lemma coversI:
  "u = take (length u) (drop a doc) \<Longrightarrow> b = a + length u \<Longrightarrow>
   covers doc (new_Range (positionAt doc a) (positionAt doc b)) a u"
  by (simp add: covers_def)

lemma block_match_tagged:
  assumes w1: "match_within doc i match" and w2: "match_within (m_0 match) j ln"
    and d: "m_0 ln = lead @ w @ sep @ c # body" "toLowerCase mk = toLowerCase w"
      "set sep \<subseteq> {CHR '' '', CHR '':''}" "c \<noteq> CHR ''*''" "c \<noteq> CHR ''/''"
      "CR \<notin> set body" "LF \<notin> set body"
  shows "\<exists>a u. covers doc (new_Range (positionAt doc (m_index match + m_index ln + length lead))
                           (positionAt doc (m_index match + m_index ln + length (m_0 ln)))) a u \<and>
               tagged_text mk u"
proof -
  let ?u = "w @ sep @ c # body"
  let ?a = "m_index match + m_index ln + length lead"
  from w1 have M: "m_0 match = take (length (m_0 match)) (drop (m_index match) doc)"
    by (simp add: match_within_def)
  from w2 have L: "m_0 ln = take (length (m_0 ln)) (drop (m_index ln) (m_0 match))"
    and b: "m_index ln + length (m_0 ln) \<le> length (m_0 match)"
    by (simp_all add: match_within_def)
  from take_drop_nested[OF M L b]
  have h: "m_0 ln = take (length (m_0 ln)) (drop (m_index match + m_index ln) doc)" .
  have e: "lead @ ?u = take (length (lead @ ?u)) (drop (m_index match + m_index ln) doc)"
    unfolding d(1)[symmetric] by (rule h)
  have "?u = drop (length lead) (lead @ ?u)" by simp
  also have "\<dots> = drop (length lead) (take (length (lead @ ?u)) (drop (m_index match + m_index ln) doc))"
    by (rule arg_cong[where f = "drop (length lead)", OF e])
  also have "\<dots> = take (length ?u) (drop ?a doc)"
    by (simp add: drop_take add.commute)
  finally have "?u = take (length ?u) (drop ?a doc)" .
  moreover have "?a + length ?u = m_index match + m_index ln + length (m_0 ln)"
    using d(1) by simp
  ultimately have "covers doc (new_Range (positionAt doc ?a)
                           (positionAt doc (m_index match + m_index ln + length (m_0 ln)))) ?a ?u"
    by (intro coversI) (assumption, rule sym)
  moreover have "tagged_text mk ?u"
    unfolding tagged_text_def using d by metis
  ultimately show ?thesis by blast
qed

lemma parse_escapedMarker: "parse_pattern (escapedMarker t) = Some (lit t)"
proof -
  have "prun pstart (escapedMarker t) =
      Some (pstart\<lparr>stack := (None, [], rev (map RChar t) @ []) # [], mode := MNormal,
                   lastq := (if t = [] then lastq pstart else QAtom)\<rparr>)"
    by (rule prun_escapedMarker) (simp_all add: pstart_def)
  then show ?thesis
    by (simp add: parse_pattern_def pstart_def lit_def)
qed

lemma ci_case_sensitive: "\<not> ignoreCase f \<Longrightarrow> ci f u w \<longleftrightarrow> u = w"
proof -
  assume "\<not> ignoreCase f"
  then have "ci f u w \<longleftrightarrow> map (of_char :: char \<Rightarrow> nat) u = map of_char w"
    by (simp add: ci_def Canonicalize_def[abs_def])
  also have "\<dots> \<longleftrightarrow> u = w"
    by (rule inj_map_eq_map) (auto simp: inj_on_def of_char_eq_iff)
  finally show ?thesis .
qed

lemma lit_exists:
  "ci f u w \<Longrightarrow> m_rest s = u @ r \<Longrightarrow> \<exists>s'. reach f (lit w) s u s'"
proof (induction w arbitrary: u s)
  case Nil
  then show ?case by (simp add: ci_def lit_def seq_of_def reach_Empty)
next
  case (Cons a w)
  from Cons.prems(1) obtain c u' where u: "u = c # u'"
    "Canonicalize (ignoreCase f) a = Canonicalize (ignoreCase f) c" "ci f u' w"
    by (cases u) (auto simp: ci_def)
  let ?s1 = "s\<lparr>m_prev := Some c, m_rest := tl (m_rest s)\<rparr>"
  from u Cons.prems(2) have 1: "reach f (RChar a) s [c] ?s1"
    by (simp add: reach_Char)
  from u Cons.prems(2) have "m_rest ?s1 = u' @ r" by simp
  from Cons.IH[OF u(3) this] obtain s' where "reach f (lit w) ?s1 u' s'" by blast
  with 1 u(1) have "reach f (RSeq (RChar a) (lit w)) s u s'"
    unfolding reach_Seq by (intro exI[of _ "[c]"] exI[of _ u'] exI[of _ ?s1]) simp
  then show ?case by (auto simp: lit_def seq_of_def)
qed

lemma match_at_None_iff:
  "match_at re prev rest idx = None \<longleftrightarrow> ms (re_flags re) (re_source re) (start_state prev rest) = []"
  by (simp add: match_at_def start_state_def split: list.splits)

lemma match_at_exists:
  "reach (re_flags re) (re_source re) (start_state prev rest) u s' \<Longrightarrow>
   \<exists>m. match_at re prev rest idx = Some m"
  by (cases "match_at re prev rest idx") (auto simp: match_at_None_iff reach_def)

lemma registry_ok_newParser: "registry_ok (newParser cfg)"
  by (auto simp: registry_ok_def newParser_def setTags_def makeTag_def)

lemma registry_ok_SetRegex [simp]: "registry_ok (SetRegex l p) = registry_ok p"
  by (simp add: registry_ok_def)

lemma markers_SetRegex [simp]: "markers (SetRegex l p) = markers p"
  by (simp add: markers_def)

lemma SetRegex_ignoreFirstLine: "ignoreFirstLine (SetRegex l p) = ignoreFirstLine (setDelimiter l p)"
  by (simp add: SetRegex_def Let_def)

lemma setDelimiter_python_flag: "ignoreFirstLine (setDelimiter ''python'' p)"
  by (simp add: setDelimiter_def Let_def)

lemma setDelimiter_elixir_flag: "ignoreFirstLine (setDelimiter ''elixir'' p)"
  by (simp add: setDelimiter_def Let_def)

lemma setDelimiter_python:
  assumes "l = ''python'' \<or> l = ''elixir''"
  shows "ignoreFirstLine (setDelimiter l p)"
  using assms
proof
  assume "l = ''python''"
  then show ?thesis by (simp only: setDelimiter_python_flag)
next
  assume "l = ''elixir''"
  then show ?thesis by (simp only: setDelimiter_elixir_flag)
qed

lemma positionAt_0 [simp]: "positionAt doc 0 = origin"
  by (cases doc) (simp_all add: positionAt_def origin_def)

section \<open>The single-line scan in plain-text mode\<close>

lemma lower_char_code:
  "(of_char (lower_char c) :: nat) =
     (if (65 \<le> (of_char c :: nat) \<and> (of_char c :: nat) \<le> 90) \<or>
         (192 \<le> (of_char c :: nat) \<and> (of_char c :: nat) \<le> 222 \<and> (of_char c :: nat) \<noteq> 215)
      then of_char c + 32 else of_char c)"
proof -
  have "(of_char c :: nat) \<le> 222 \<Longrightarrow> (of_char c + 32 :: nat) mod 256 = of_char c + 32"
    by simp
  then show ?thesis
    by (auto simp: lower_char_def Let_def)
qed

lemma upper_of_lower_code:
  fixes x :: nat
  assumes "x < 256"
  shows "(let n = (if (65 \<le> x \<and> x \<le> 90) \<or> (192 \<le> x \<and> x \<le> 222 \<and> x \<noteq> 215) then x + 32 else x) in
          if (97 \<le> n \<and> n \<le> 122) \<or> (224 \<le> n \<and> n \<le> 254 \<and> n \<noteq> 247) then n - 32
          else if n = 181 then 924 else if n = 255 then 376 else n) =
         (if (97 \<le> x \<and> x \<le> 122) \<or> (224 \<le> x \<and> x \<le> 254 \<and> x \<noteq> 247) then x - 32
          else if x = 181 then 924 else if x = 255 then 376 else x)"
proof (cases "(65 \<le> x \<and> x \<le> 90) \<or> (192 \<le> x \<and> x \<le> 222 \<and> x \<noteq> 215)")
  case True
  then have a: "\<not> ((97 \<le> x \<and> x \<le> 122) \<or> (224 \<le> x \<and> x \<le> 254 \<and> x \<noteq> 247))" "x \<noteq> 181" "x \<noteq> 255"
    by arith+
  from True have b: "(97 \<le> x + 32 \<and> x + 32 \<le> 122) \<or> (224 \<le> x + 32 \<and> x + 32 \<le> 254 \<and> x + 32 \<noteq> 247)"
    by arith
  show ?thesis unfolding Let_def if_P[OF True] if_P[OF b] if_not_P[OF a(1)]
    using a(2,3) by simp
next
  case False
  show ?thesis unfolding Let_def if_not_P[OF False] ..
qed

lemma lower_of_upper_code:
  fixes x :: nat
  assumes "x < 256"
  shows "lower_of_upper
           (if (97 \<le> x \<and> x \<le> 122) \<or> (224 \<le> x \<and> x \<le> 254 \<and> x \<noteq> 247) then x - 32
            else if x = 181 then 924 else if x = 255 then 376 else x) =
         (if (65 \<le> x \<and> x \<le> 90) \<or> (192 \<le> x \<and> x \<le> 222 \<and> x \<noteq> 215) then x + 32 else x)"
proof (cases "(97 \<le> x \<and> x \<le> 122) \<or> (224 \<le> x \<and> x \<le> 254 \<and> x \<noteq> 247)")
  case True
  then have a: "\<not> ((65 \<le> x \<and> x \<le> 90) \<or> (192 \<le> x \<and> x \<le> 222 \<and> x \<noteq> 215))"
    and b: "(65 \<le> x - 32 \<and> x - 32 \<le> 90) \<or> (192 \<le> x - 32 \<and> x - 32 \<le> 222 \<and> x - 32 \<noteq> 215)"
    and c: "x - 32 \<noteq> 924" "x - 32 \<noteq> 376" "x - 32 + 32 = x"
    using assms by arith+
  show ?thesis unfolding lower_of_upper_def if_P[OF True] if_not_P[OF a] if_P[OF b]
    using c by simp
next
  case False
  show ?thesis
  proof (cases "x = 181 \<or> x = 255")
    case True
    then show ?thesis by (auto simp: lower_of_upper_def)
  next
    case n: False
    then have "x \<noteq> 924" "x \<noteq> 376" "x \<noteq> 181" "x \<noteq> 255" using assms by arith+
    then show ?thesis unfolding lower_of_upper_def if_not_P[OF False] by simp
  qed
qed

lemma upper_code_lower_char: "upper_code (lower_char c) = upper_code c"
  unfolding upper_code_def[of "lower_char c"] lower_char_code
  using upper_of_lower_code[OF nat_of_char_less_256, of c]
  by (simp add: upper_code_def Let_def)

lemma lower_of_upper_char: "lower_of_upper (upper_code c) = of_char (lower_char c)"
  unfolding lower_char_code upper_code_def Let_def
  by (rule lower_of_upper_code[OF nat_of_char_less_256])

lemma upper_lower_char:
  "upper_code a = upper_code c \<longleftrightarrow> lower_char a = lower_char c"
proof
  assume "upper_code a = upper_code c"
  then have "lower_of_upper (upper_code a) = lower_of_upper (upper_code c)" by simp
  then show "lower_char a = lower_char c"
    unfolding lower_of_upper_char by (simp add: of_char_eq_iff)
next
  assume "lower_char a = lower_char c"
  then have "upper_code (lower_char a) = upper_code (lower_char c)" by simp
  then show "upper_code a = upper_code c" unfolding upper_code_lower_char .
qed

lemma ci_toLowerCase:
  "ignoreCase f \<Longrightarrow> ci f u w \<longleftrightarrow> toLowerCase u = toLowerCase w"
proof (induction u arbitrary: w)
  case Nil
  then show ?case by (auto simp: ci_def toLowerCase_def)
next
  case (Cons a u)
  show ?case
  proof (cases w)
    case Nil
    then show ?thesis by (simp add: ci_def toLowerCase_def)
  next
    case (Cons c w')
    with Cons.IH[OF Cons.prems, of w'] Cons.prems show ?thesis
      by (simp add: ci_def toLowerCase_def Canonicalize_def upper_lower_char)
  qed
qed

lemma ci_length: "ci f u w \<Longrightarrow> length u = length w"
  unfolding ci_def by (rule map_eq_imp_length_eq)

lemma ci_no_terminator:
  assumes "ci f u w" "CR \<notin> set w" "LF \<notin> set w"
  shows "\<forall>c \<in> set u. \<not> is_line_terminator c"
proof
  fix c assume c: "c \<in> set u"
  then have "Canonicalize (ignoreCase f) c \<in> set (map (Canonicalize (ignoreCase f)) w)"
    using assms(1) by (metis ci_def image_eqI set_map)
  then obtain d where d: "d \<in> set w" "Canonicalize (ignoreCase f) d = Canonicalize (ignoreCase f) c"
    by auto
  show "\<not> is_line_terminator c"
  proof
    assume "is_line_terminator c"
    then have "c = LF \<or> c = CR" by (simp add: is_line_terminator_def)
    then have "d = c" using d(2) Canonicalize_punct(7,8)[of "ignoreCase f" d] by auto
    with d(1) \<open>c = LF \<or> c = CR\<close> assms(2,3) show False by auto
  qed
qed

lemma reach_tagStar:
  assumes "reach f (RStar g (RGroup 3 (alternation ws))) s u s'" "ws \<noteq> []"
  shows "(\<exists>ks. u = concat ks \<and> (\<forall>k \<in> set ks. \<exists>t \<in> set ws. ci f k t)) \<and>
         ((u = [] \<and> s' = s) \<or>
          (\<exists>w pre. m_caps s' 3 = Some w \<and> u = pre @ w \<and> (\<exists>t \<in> set ws. ci f w t)))"
  using assms(1)
proof (induction rule: reach_Star_induct)
  case (refl s)
  show ?case by (simp add: exI[of _ "[]"])
next
  case (step s u1 s1 u2 s')
  from step(2) obtain s0 where s0: "reach f (alternation ws) (clear_groups (RGroup 3 (alternation ws)) s) u1 s0"
    "s1 = s0\<lparr>m_caps := (m_caps s0)(3 := Some u1)\<rparr>"
    by (auto simp: reach_Group)
  from reach_alternation[OF s0(1)] assms(2) obtain t where t: "t \<in> set ws" "ci f u1 t" by auto
  from step.IH obtain ks where ks: "u2 = concat ks" "\<forall>k \<in> set ks. \<exists>t \<in> set ws. ci f k t" by blast
  have 1: "\<exists>ks. u1 @ u2 = concat ks \<and> (\<forall>k \<in> set ks. \<exists>t \<in> set ws. ci f k t)"
    using ks t by (intro exI[of _ "u1 # ks"]) auto
  from step.IH have "(u2 = [] \<and> s' = s1) \<or>
      (\<exists>w pre. m_caps s' 3 = Some w \<and> u2 = pre @ w \<and> (\<exists>t \<in> set ws. ci f w t))" by blast
  then have 2: "\<exists>w pre. m_caps s' 3 = Some w \<and> u1 @ u2 = pre @ w \<and> (\<exists>t \<in> set ws. ci f w t)"
  proof
    assume "u2 = [] \<and> s' = s1"
    with s0(2) t show ?thesis by (intro exI[of _ u1] exI[of _ "[]"]) auto
  next
    assume "\<exists>w pre. m_caps s' 3 = Some w \<and> u2 = pre @ w \<and> (\<exists>t \<in> set ws. ci f w t)"
    then obtain w pre where "m_caps s' 3 = Some w" "u2 = pre @ w" "\<exists>t \<in> set ws. ci f w t" by blast
    then show ?thesis by (intro exI[of _ w] exI[of _ "u1 @ pre"]) auto
  qed
  from 1 2 show ?case by blast
qed

lemma reach_tagPlus:
  assumes "reach f (RPlus g (RGroup 3 (alternation ws))) s u s'" "ws \<noteq> []"
  shows "\<exists>w1 body. u = w1 @ body \<and> (\<exists>t \<in> set ws. ci f w1 t) \<and>
           (\<exists>ks. body = concat ks \<and> (\<forall>k \<in> set ks. \<exists>t \<in> set ws. ci f k t)) \<and>
           (\<exists>w pre. m_caps s' 3 = Some w \<and> u = pre @ w \<and> (\<exists>t \<in> set ws. ci f w t))"
proof -
  from assms(1) obtain u1 u2 s1 where x: "u = u1 @ u2"
    "reach f (RGroup 3 (alternation ws)) (clear_groups (RGroup 3 (alternation ws)) s) u1 s1"
    "reach f (RStar g (RGroup 3 (alternation ws))) s1 u2 s'"
    by (auto simp: reach_Plus)
  from x(2) obtain s0 where s0: "reach f (alternation ws) (clear_groups (RGroup 3 (alternation ws)) s) u1 s0"
    "s1 = s0\<lparr>m_caps := (m_caps s0)(3 := Some u1)\<rparr>"
    by (auto simp: reach_Group)
  from reach_alternation[OF s0(1)] assms(2) obtain t where t: "t \<in> set ws" "ci f u1 t" by auto
  note st = reach_tagStar[OF x(3) assms(2)]
  from st obtain ks where ks: "u2 = concat ks" "\<forall>k \<in> set ks. \<exists>t \<in> set ws. ci f k t" by blast
  from st have "(u2 = [] \<and> s' = s1) \<or>
      (\<exists>w pre. m_caps s' 3 = Some w \<and> u2 = pre @ w \<and> (\<exists>t \<in> set ws. ci f w t))" by blast
  then have 2: "\<exists>w pre. m_caps s' 3 = Some w \<and> u = pre @ w \<and> (\<exists>t \<in> set ws. ci f w t)"
  proof
    assume "u2 = [] \<and> s' = s1"
    with s0(2) t x(1) show ?thesis by (intro exI[of _ u1] exI[of _ "[]"]) auto
  next
    assume "\<exists>w pre. m_caps s' 3 = Some w \<and> u2 = pre @ w \<and> (\<exists>t \<in> set ws. ci f w t)"
    then obtain w pre where "m_caps s' 3 = Some w" "u2 = pre @ w" "\<exists>t \<in> set ws. ci f w t" by blast
    with x(1) show ?thesis by (intro exI[of _ w] exI[of _ "u1 @ pre"]) auto
  qed
  from x(1) t ks 2 show ?thesis by blast
qed

lemma reach_restOfLineGroup:
  assumes "reach f restOfLineGroup s u s'"
  shows "(\<forall>c \<in> set u. \<not> is_line_terminator c) \<and> m_caps s' 4 = Some u"
proof -
  from assms obtain s1 where s1: "reach f (RStar True RAny) s u s1"
    "s' = s1\<lparr>m_caps := (m_caps s1)(4 := Some u)\<rparr>"
    by (auto simp: restOfLineGroup_def reach_Group reach_Seq_Empty)
  have "set u \<subseteq> {c. \<not> is_line_terminator c}"
    by (rule reach_Star_set[OF s1(1)]) (auto simp: reach_Any)
  with s1(2) show ?thesis by auto
qed

lemma groups_in_restOfLineGroup [simp]: "groups_in restOfLineGroup = [4]"
  by (simp add: restOfLineGroup_def)

lemma singleLine_tail_reach:
  assumes "reach f (RSeq (RPlus True (RGroup 3 (alternation ws))) (RSeq restOfLineGroup REmpty)) s u s'"
    "ws \<noteq> []"
  shows "\<exists>w1 body rest. u = w1 @ body @ rest \<and> (\<exists>t \<in> set ws. ci f w1 t) \<and>
           (\<exists>ks. body = concat ks \<and> (\<forall>k \<in> set ks. \<exists>t \<in> set ws. ci f k t)) \<and>
           (\<forall>c \<in> set rest. \<not> is_line_terminator c) \<and>
           (\<exists>w pre. m_caps s' 3 = Some w \<and> w1 @ body = pre @ w \<and> (\<exists>t \<in> set ws. ci f w t))"
proof -
  from assms(1) obtain u1 u2 s1 where x: "u = u1 @ u2"
    "reach f (RPlus True (RGroup 3 (alternation ws))) s u1 s1" "reach f restOfLineGroup s1 u2 s'"
    unfolding reach_Seq[of f "RPlus True (RGroup 3 (alternation ws))"] reach_Seq_Empty by blast
  from reach_tagPlus[OF x(2) assms(2)] obtain w1 body w pre where
    p: "u1 = w1 @ body" "\<exists>t \<in> set ws. ci f w1 t"
      "\<exists>ks. body = concat ks \<and> (\<forall>k \<in> set ks. \<exists>t \<in> set ws. ci f k t)"
      "m_caps s1 3 = Some w" "u1 = pre @ w" "\<exists>t \<in> set ws. ci f w t" by blast
  have c: "m_caps s' 3 = m_caps s1 3" by (rule reach_caps[OF x(3)]) simp
  from reach_restOfLineGroup[OF x(3)] have r: "\<forall>c \<in> set u2. \<not> is_line_terminator c" by simp
  from x(1) p(1) have 1: "u = w1 @ body @ u2" by simp
  from p(1) p(5) have "w1 @ body = pre @ w" by simp
  with p(4,6) c have 5: "\<exists>w pre. m_caps s' 3 = Some w \<and> w1 @ body = pre @ w \<and> (\<exists>t \<in> set ws. ci f w t)"
    by (intro exI[of _ w] exI[of _ pre]) simp
  from 1 p(2,3) r 5 show ?thesis by blast
qed

lemma plainTextRegex_reach:
  assumes "reach f (plainTextRegex ws) s u s'" "ws \<noteq> []"
  shows "at_line_start f s \<and>
         (\<exists>ind w1 body rest. u = ind @ w1 @ body @ rest \<and> set ind \<subseteq> {CHR '' '', TAB} \<and>
           (\<exists>t \<in> set ws. ci f w1 t) \<and>
           (\<exists>ks. body = concat ks \<and> (\<forall>k \<in> set ks. \<exists>t \<in> set ws. ci f k t)) \<and>
           (\<forall>c \<in> set rest. \<not> is_line_terminator c) \<and>
           (\<exists>w pre. m_caps s' 3 = Some w \<and> w1 @ body = pre @ w \<and> (\<exists>t \<in> set ws. ci f w t)))"
proof -
  from assms(1) obtain u0 u1 u2 s0 s1 where x: "u = u0 @ u1 @ u2"
    "reach f lineStartGroup s u0 s0" "reach f indentGroup s0 u1 s1"
    "reach f (RSeq (RPlus True (RGroup 3 (alternation ws))) (RSeq restOfLineGroup REmpty)) s1 u2 s'"
    unfolding plainTextRegex_def reach_Seq[of f lineStartGroup] reach_Seq[of f indentGroup]
    by blast
  from reach_lineStartGroup[OF x(2)] have a: "u0 = []" "at_line_start f s" by simp_all
  from reach_indentGroup[OF x(3)] have b: "set u1 \<subseteq> {CHR '' '', TAB}" by simp
  from singleLine_tail_reach[OF x(4) assms(2)] obtain w1 body rest where
    t: "u2 = w1 @ body @ rest" "\<exists>t \<in> set ws. ci f w1 t"
      "\<exists>ks. body = concat ks \<and> (\<forall>k \<in> set ks. \<exists>t \<in> set ws. ci f k t)"
      "\<forall>c \<in> set rest. \<not> is_line_terminator c"
      "\<exists>w pre. m_caps s' 3 = Some w \<and> w1 @ body = pre @ w \<and> (\<exists>t \<in> set ws. ci f w t)" by blast
  from x(1) a(1) t(1) have "u = u1 @ w1 @ body @ rest" by simp
  with a(2) b t(2-5) show ?thesis by blast
qed

lemma clear_groups_rest [simp]: "m_rest (clear_groups r s) = m_rest s"
  by (simp add: clear_groups_def)

lemma at_line_start_clear [simp]: "at_line_start f (clear_groups r s) = at_line_start f s"
  by (simp add: clear_groups_def at_line_start_def)

lemma reach_Star_Nil: "reach f (RStar g r) s [] s"
  by (subst reach_Star) simp

lemma wsStar_exists:
  "set ind \<subseteq> {CHR '' '', TAB} \<Longrightarrow> m_rest s = ind @ r \<Longrightarrow> \<exists>s'. reach f (RStar True wsClass) s ind s'"
proof (induction ind arbitrary: s)
  case Nil
  show ?case by (intro exI[of _ s]) (rule reach_Star_Nil)
next
  case (Cons c ind)
  let ?s0 = "clear_groups wsClass s"
  let ?s1 = "?s0\<lparr>m_prev := Some c, m_rest := tl (m_rest ?s0)\<rparr>"
  from Cons.prems have c: "c = CHR '' '' \<or> c = TAB" by auto
  with Cons.prems(2) have 1: "reach f wsClass ?s0 [c] ?s1"
    by (auto simp: wsClass_def reach_Class)
  from Cons.prems have "m_rest ?s1 = ind @ r" "set ind \<subseteq> {CHR '' '', TAB}" by auto
  from Cons.IH[OF this(2,1)] obtain s' where 2: "reach f (RStar True wsClass) ?s1 ind s'" by blast
  have "reach f (RStar True wsClass) s ([c] @ ind) s'"
    by (subst reach_Star, rule disjI2, rule exI[of _ "[c]"], rule exI[of _ ind], rule exI[of _ ?s1])
       (use 1 2 in simp)
  then show ?case by auto
qed

lemma lineStartGroup_exists:
  assumes "at_line_start f s"
  shows "\<exists>s'. reach f lineStartGroup s [] s' \<and> m_rest s' = m_rest s"
proof -
  let ?g = "RGroup 1 (RSeq RBol REmpty)"
  let ?s0 = "clear_groups ?g s"
  let ?s1 = "?s0\<lparr>m_caps := (m_caps ?s0)(1 := Some [])\<rparr>"
  have 1: "reach f ?g ?s0 [] ?s1"
    by (subst reach_Group, rule exI[of _ ?s0]) (use assms in \<open>simp add: reach_Seq_Empty reach_Bol\<close>)
  have "reach f lineStartGroup s ([] @ []) ?s1"
    unfolding lineStartGroup_def
    by (subst reach_Plus, rule exI[of _ "[]"], rule exI[of _ "[]"], rule exI[of _ ?s1])
       (use 1 in \<open>simp add: reach_Star_Nil\<close>)
  then show ?thesis by (intro exI[of _ ?s1]) simp
qed

lemma indentGroup_exists:
  assumes "set ind \<subseteq> {CHR '' '', TAB}" "m_rest s = ind @ r"
  shows "\<exists>s'. reach f indentGroup s ind s'"
proof -
  from wsStar_exists[OF assms] obtain s1 where 1: "reach f (RStar True wsClass) s ind s1" by blast
  have "reach f (RSeq (RStar True wsClass) (RSeq (RStar True wsClass) REmpty)) s (ind @ []) s1"
    by (subst reach_Seq, rule exI[of _ ind], rule exI[of _ "[]"], rule exI[of _ s1])
       (use 1 in \<open>simp add: reach_Seq_Empty reach_Star_Nil\<close>)
  then show ?thesis by (auto simp: indentGroup_def reach_Group)
qed

lemma alt_of_exists:
  "r \<in> set rs \<Longrightarrow> reach f r s u s' \<Longrightarrow> reach f (alt_of rs) s u s'"
  by (induction rs rule: alt_of.induct) (auto simp: reach_Alt)

lemma alternation_exists:
  assumes "t \<in> set ws" "ci f w t" "m_rest s = w @ r"
  shows "\<exists>s'. reach f (alternation ws) s w s'"
proof -
  from lit_exists[OF assms(2,3)] obtain s' where "reach f (lit t) s w s'" by blast
  with assms(1) have "reach f (alt_of (map lit ws)) s w s'"
    by (intro alt_of_exists[of "lit t"]) auto
  with assms(1) show ?thesis by (auto simp: alternation_def)
qed

lemma tagPlus_exists:
  assumes "t \<in> set ws" "ci f w t" "m_rest s = w @ r"
  shows "\<exists>s'. reach f (RPlus g (RGroup 3 (alternation ws))) s w s'"
proof -
  let ?s0 = "clear_groups (RGroup 3 (alternation ws)) s"
  from assms(3) have "m_rest ?s0 = w @ r" by simp
  from alternation_exists[OF assms(1,2) this] obtain s1 where
    1: "reach f (alternation ws) ?s0 w s1" by blast
  let ?s2 = "s1\<lparr>m_caps := (m_caps s1)(3 := Some w)\<rparr>"
  from 1 have 2: "reach f (RGroup 3 (alternation ws)) ?s0 w ?s2"
    by (auto simp: reach_Group)
  have "reach f (RPlus g (RGroup 3 (alternation ws))) s (w @ []) ?s2"
    by (subst reach_Plus, rule exI[of _ w], rule exI[of _ "[]"], rule exI[of _ ?s2])
       (use 2 in \<open>simp add: reach_Star_Nil\<close>)
  then show ?thesis by auto
qed

lemma restOfLineGroup_exists: "\<exists>s'. reach f restOfLineGroup s [] s'"
  by (simp add: restOfLineGroup_def reach_Group reach_Seq_Empty exI[of _ s] reach_Star_Nil)

lemma singleLine_tail_exists:
  assumes "t \<in> set ws" "ci f w t" "m_rest s = w @ r"
  shows "\<exists>s'. reach f (RSeq (RPlus True (RGroup 3 (alternation ws))) (RSeq restOfLineGroup REmpty)) s w s'"
proof -
  from tagPlus_exists[OF assms] obtain s1 where
    1: "reach f (RPlus True (RGroup 3 (alternation ws))) s w s1" by blast
  from restOfLineGroup_exists obtain s2 where 2: "reach f restOfLineGroup s1 [] s2" by blast
  have "reach f (RSeq (RPlus True (RGroup 3 (alternation ws))) (RSeq restOfLineGroup REmpty)) s (w @ []) s2"
    by (subst reach_Seq, rule exI[of _ w], rule exI[of _ "[]"], rule exI[of _ s1])
       (use 1 2 in \<open>simp add: reach_Seq_Empty\<close>)
  then show ?thesis by auto
qed

lemma plainTextRegex_exists:
  assumes "at_line_start f s" "set ind \<subseteq> {CHR '' '', TAB}" "t \<in> set ws" "ci f w t"
    "m_rest s = ind @ w @ r"
  shows "\<exists>s'. reach f (plainTextRegex ws) s (ind @ w) s'"
proof -
  from lineStartGroup_exists[OF assms(1)] obtain s0 where
    0: "reach f lineStartGroup s [] s0" "m_rest s0 = m_rest s" by blast
  from 0(2) assms(5) have "m_rest s0 = ind @ (w @ r)" by simp
  from indentGroup_exists[OF assms(2) this] obtain s1 where 1: "reach f indentGroup s0 ind s1" by blast
  from reach_rest[OF 1] 0(2) assms(5) have "m_rest s1 = w @ r" by simp
  from singleLine_tail_exists[OF assms(3,4) this] obtain s2 where
    2: "reach f (RSeq (RPlus True (RGroup 3 (alternation ws))) (RSeq restOfLineGroup REmpty)) s1 w s2"
    by blast
  have 3: "reach f (RSeq indentGroup
       (RSeq (RPlus True (RGroup 3 (alternation ws))) (RSeq restOfLineGroup REmpty))) s0 (ind @ w) s2"
    by (subst reach_Seq, rule exI[of _ ind], rule exI[of _ w], rule exI[of _ s1]) (use 1 2 in simp)
  have "reach f (plainTextRegex ws) s ([] @ ind @ w) s2"
    unfolding plainTextRegex_def
    by (subst reach_Seq, rule exI[of _ "[]"], rule exI[of _ "ind @ w"], rule exI[of _ s0])
       (use 0 3 in simp)
  then show ?thesis by auto
qed

lemma match_at_None_idx:
  "match_at re prev rest idx = None \<Longrightarrow> match_at re prev rest idx' = None"
  by (simp add: match_at_None_iff)

lemma find_match_skips:
  "find_match re prev rest idx = Some m \<Longrightarrow> k < m_index m - idx \<Longrightarrow>
     match_at re (if k = 0 then prev else Some (rest ! (k - 1))) (drop k rest) (idx + k) = None"
proof (induction re prev rest idx arbitrary: k rule: find_match.induct)
  case (1 re prev idx)
  then show ?case using match_at_within[of re prev "[]" idx m] by auto
next
  case (2 re prev c cs idx)
  show ?case
  proof (cases "match_at re prev (c # cs) idx")
    case None
    with 2 have f: "find_match re (Some c) cs (Suc idx) = Some m" by simp
    show ?thesis
    proof (cases k)
      case 0
      with None show ?thesis by simp
    next
      case (Suc k')
      with "2.prems"(2) have "k' < m_index m - Suc idx" by simp
      from "2.IH"[OF None f this]
      have "match_at re (if k' = 0 then Some c else Some (cs ! (k' - 1))) (drop k' cs) (Suc idx + k') = None" .
      moreover have "(if k' = 0 then Some c else Some (cs ! (k' - 1))) = Some ((c # cs) ! k')"
        by (cases k') simp_all
      ultimately show ?thesis using Suc by simp
    qed
  next
    case (Some m')
    with "2.prems" have "m' = m" by simp
    with Some match_at_within[of re prev "c # cs" idx m] "2.prems"(2) show ?thesis by simp
  qed
qed

lemma find_match_None:
  "find_match re prev rest idx = None \<Longrightarrow> k \<le> length rest \<Longrightarrow>
     match_at re (if k = 0 then prev else Some (rest ! (k - 1))) (drop k rest) (idx + k) = None"
proof (induction re prev rest idx arbitrary: k rule: find_match.induct)
  case (1 re prev idx)
  then show ?case by simp
next
  case (2 re prev c cs idx)
  from "2.prems"(1) have n: "match_at re prev (c # cs) idx = None"
    and f: "find_match re (Some c) cs (Suc idx) = None"
    by (auto split: option.splits)
  show ?case
  proof (cases k)
    case 0
    with n show ?thesis by simp
  next
    case (Suc k')
    with "2.prems"(2) have "k' \<le> length cs" by simp
    from "2.IH"[OF n f this]
    have "match_at re (if k' = 0 then Some c else Some (cs ! (k' - 1))) (drop k' cs) (Suc idx + k') = None" .
    moreover have "(if k' = 0 then Some c else Some (cs ! (k' - 1))) = Some ((c # cs) ! k')"
      by (cases k') simp_all
    ultimately show ?thesis using Suc by simp
  qed
qed

lemma prev_at_drop:
  assumes "i \<le> length doc"
  shows "(if k = 0 then (if i = 0 then None else Some (doc ! (i - 1))) else Some (drop i doc ! (k - 1)))
        = prev_at doc (i + k)"
  using assms by (cases k) (auto simp: prev_at_def)

lemma exec_first:
  assumes "exec re doc i = Some m" "i \<le> j" "j < m_index m"
  shows "match_at re (prev_at doc j) (drop j doc) j = None"
proof -
  from assms(1) have i: "i \<le> length doc"
    and f: "find_match re (if i = 0 then None else Some (doc ! (i - 1))) (drop i doc) i = Some m"
    by (auto simp: exec_def split: if_splits)
  from assms(2,3) have "j - i < m_index m - i" by simp
  from find_match_skips[OF f this] prev_at_drop[OF i, of "j - i"] assms(2)
  show ?thesis by (simp add: add.commute)
qed

lemma exec_None:
  assumes "exec re doc i = None" "i \<le> j" "j \<le> length doc"
  shows "match_at re (prev_at doc j) (drop j doc) j = None"
proof -
  from assms have i: "i \<le> length doc"
    and f: "find_match re (if i = 0 then None else Some (doc ! (i - 1))) (drop i doc) i = None"
    by (auto simp: exec_def split: if_splits)
  from assms(2,3) have "j - i \<le> length (drop i doc)" by simp
  from find_match_None[OF f this] prev_at_drop[OF i, of "j - i"] assms(2)
  show ?thesis by (simp add: add.commute)
qed

lemma ci_concat_no_terminator:
  assumes "\<forall>k \<in> set ks. \<exists>t \<in> set ws. ci f k t" "\<forall>t \<in> set ws. CR \<notin> set t \<and> LF \<notin> set t"
  shows "\<forall>c \<in> set (concat ks). \<not> is_line_terminator c"
  using assms ci_no_terminator by fastforce

lemma marker_firstI:
  assumes "set ind \<subseteq> {CHR '' '', TAB}" "t \<in> set mks" "toLowerCase w = toLowerCase t"
  shows "marker_first mks (ind @ w @ r)"
proof -
  from assms(3) have "length w = length t"
    by (metis length_map toLowerCase_def)
  with assms show ?thesis
    unfolding marker_first_def by (intro bexI[of _ "length ind"] bexI[of _ t] conjI) simp_all
qed

lemma marker_firstD:
  assumes "marker_first mks u"
  obtains ind w r t where "u = ind @ w @ r" "set ind \<subseteq> {CHR '' '', TAB}" "t \<in> set mks"
    "toLowerCase w = toLowerCase t"
proof -
  from assms obtain n t where n: "n \<le> length u" "set (take n u) \<subseteq> {CHR '' '', TAB}" "t \<in> set mks"
    "toLowerCase (take (length t) (drop n u)) = toLowerCase t"
    by (auto simp: marker_first_def)
  have "u = take n u @ take (length t) (drop n u) @ drop (length t) (drop n u)"
    unfolding append_take_drop_id ..
  from this n(2-4) show ?thesis by (rule that)
qed

lemma plain_match_sound:
  assumes m: "match_at \<lparr>re_source = plainTextRegex mks, re_flags = f\<rparr> prev rest idx = Some m"
    and f: "ignoreCase f" and ne: "mks \<noteq> []"
    and ok: "\<forall>mk \<in> set mks. mk \<noteq> [] \<and> CR \<notin> set mk \<and> LF \<notin> set mk"
  shows "at_line_start f (start_state prev rest)" "m_0 m \<noteq> []"
    "\<forall>c \<in> set (m_0 m). \<not> is_line_terminator c" "marker_first mks (m_0 m)"
    "\<exists>w mk. m_group m 3 = Some w \<and> mk \<in> set mks \<and> toLowerCase mk = toLowerCase w"
proof -
  from match_at_reach[OF m] obtain s' where
    r: "reach f (plainTextRegex mks) (start_state prev rest) (m_0 m) s'" "m_group m = m_caps s'"
    by auto
  from plainTextRegex_reach[OF r(1) ne] obtain ind w1 body rest' w pre t1 t ks where
    d: "at_line_start f (start_state prev rest)" "m_0 m = ind @ w1 @ body @ rest'"
      "set ind \<subseteq> {CHR '' '', TAB}" "t1 \<in> set mks" "ci f w1 t1"
      "body = concat ks" "\<forall>k \<in> set ks. \<exists>t \<in> set mks. ci f k t"
      "\<forall>c \<in> set rest'. \<not> is_line_terminator c"
      "m_caps s' 3 = Some w" "w1 @ body = pre @ w" "t \<in> set mks" "ci f w t"
    by blast
  show "at_line_start f (start_state prev rest)" by (rule d(1))
  from d(4) ok have "t1 \<noteq> []" by blast
  with ci_length[OF d(5)] have "w1 \<noteq> []" by auto
  with d(2) show "m_0 m \<noteq> []" by simp
  have 1: "\<forall>c \<in> set ind. \<not> is_line_terminator c"
    using d(3) by (auto simp: is_line_terminator_def)
  have 2: "\<forall>c \<in> set w1. \<not> is_line_terminator c"
    using d(4) ok by (intro ci_no_terminator[OF d(5)]) auto
  have 3: "\<forall>c \<in> set body. \<not> is_line_terminator c"
    unfolding d(6) using ok by (intro ci_concat_no_terminator[OF d(7)]) auto
  from 1 2 3 d(8) show "\<forall>c \<in> set (m_0 m). \<not> is_line_terminator c"
    unfolding d(2) by auto
  from ci_toLowerCase[OF f] d(5) have "toLowerCase w1 = toLowerCase t1" by simp
  from marker_firstI[OF d(3,4) this] show "marker_first mks (m_0 m)"
    unfolding d(2) .
  from ci_toLowerCase[OF f] d(12) have "toLowerCase t = toLowerCase w" by simp
  with d(9,11) r(2) show "\<exists>w mk. m_group m 3 = Some w \<and> mk \<in> set mks \<and> toLowerCase mk = toLowerCase w"
    by auto
qed

lemma plain_match_exists:
  assumes "line_start doc j" "marker_first mks (drop j doc)" "ignoreCase f" "multiline f"
  shows "\<exists>m. match_at \<lparr>re_source = plainTextRegex mks, re_flags = f\<rparr> (prev_at doc j) (drop j doc) idx = Some m"
proof -
  from assms(2) obtain ind w r t where u: "drop j doc = ind @ w @ r" "set ind \<subseteq> {CHR '' '', TAB}"
    "t \<in> set mks" "toLowerCase w = toLowerCase t"
    by (rule marker_firstD)
  from ci_toLowerCase[OF assms(3)] u(4) have c: "ci f w t" by simp
  let ?s = "start_state (prev_at doc j) (drop j doc)"
  from assms(1,4) have a: "at_line_start f ?s"
    by (auto simp: line_start_def at_line_start_def start_state_def prev_at_def)
  from u(1) have "m_rest ?s = ind @ w @ r" by (simp add: start_state_def)
  from plainTextRegex_exists[OF a u(2,3) c this] obtain s' where
    "reach f (plainTextRegex mks) ?s (ind @ w) s'" by blast
  then show ?thesis
    by (intro match_at_exists[of _ _ _ "ind @ w" s']) simp
qed

lemma emitted_pushRange_old:
  assumes "emitted p r"
  shows "emitted (pushRange i r' p) r"
proof -
  from assms obtain t where "t \<in> set (tags p)" "r \<in> set (ranges t)"
    by (auto simp: emitted_def)
  then obtain k where k: "k < length (tags p)" "r \<in> set (ranges (tags p ! k))"
    by (metis in_set_conv_nth)
  let ?ts = "(tags p)[i := (tags p ! i)\<lparr>ranges := ranges (tags p ! i) @ [r']\<rparr>]"
  from k have "r \<in> set (ranges (?ts ! k))"
    by (cases "k = i") simp_all
  moreover from k(1) have "?ts ! k \<in> set ?ts" by simp
  ultimately show ?thesis unfolding emitted_def pushRange_def by auto
qed

lemma emitted_pushRange_new:
  assumes "i < length (tags p)"
  shows "emitted (pushRange i r p) r"
proof -
  let ?ts = "(tags p)[i := (tags p ! i)\<lparr>ranges := ranges (tags p ! i) @ [r]\<rparr>]"
  from assms have "r \<in> set (ranges (?ts ! i))" by simp
  moreover from assms have "?ts ! i \<in> set ?ts" by (intro nth_mem) simp
  ultimately show ?thesis unfolding emitted_def pushRange_def by auto
qed

lemma find_index_of_exists:
  "mk \<in> set (map tag ts) \<Longrightarrow> toLowerCase mk = toLowerCase w \<Longrightarrow>
   \<exists>i < length ts. find_index_of w ts = Some i"
proof (induction ts)
  case Nil
  then show ?case by simp
next
  case (Cons t ts)
  show ?case
  proof (cases "toLowerCase (tag t) = toLowerCase w")
    case True
    then show ?thesis by simp
  next
    case False
    with Cons.prems have "mk \<in> set (map tag ts)" by auto
    from Cons.IH[OF this Cons.prems(2)] False show ?thesis by auto
  qed
qed

lemma singleLineBody_found:
  assumes "\<not> ignoreFirstLine p" "m_group m 3 = Some w" "mk \<in> set (map tag (tags p))"
    "toLowerCase mk = toLowerCase w"
  shows "\<exists>i < length (tags p). singleLineBody doc m p =
           Inr (pushRange i (new_Range (positionAt doc (m_index m))
                                      (positionAt doc (m_index m + length (m_0 m)))) p)"
proof -
  from find_index_of_exists[OF assms(3,4)] obtain i where
    i: "i < length (tags p)" "find_index_of w (tags p) = Some i" by blast
  from i(1) obtain t ts where "tags p = t # ts" by (cases "tags p") auto
  with i(2) have "findTag (tags p) (Some w) = Inr (Some i)" by simp
  with assms(1,2) i(1) show ?thesis
    by (intro exI[of _ i]) (simp add: singleLineBody_def Let_def addMatch_def)
qed

lemma plain_loop:
  assumes ne: "mks \<noteq> []" and ok: "\<forall>mk \<in> set mks. mk \<noteq> [] \<and> CR \<notin> set mk \<and> LF \<notin> set mk"
  shows "map tag (tags p) = mks \<Longrightarrow> \<not> ignoreFirstLine p \<Longrightarrow>
     \<exists>p'. singleLineLoop \<lparr>re_source = plainTextRegex mks,
                           re_flags = \<lparr>ignoreCase = True, multiline = True\<rparr>\<rparr> doc i p = Some (Inr p') \<and>
       (\<forall>r. emitted p r \<longrightarrow> emitted p' r) \<and>
       (\<forall>j. i \<le> j \<and> line_start doc j \<and> marker_first mks (drop j doc) \<longrightarrow>
          (\<exists>u. emitted p' (new_Range (positionAt doc j) (positionAt doc (j + length u))) \<and>
               take (length u) (drop j doc) = u))"
proof (induction "Suc (length doc) - i" arbitrary: i p rule: less_induct)
  case less
  let ?f = "\<lparr>ignoreCase = True, multiline = True\<rparr>"
  let ?re = "\<lparr>re_source = plainTextRegex mks, re_flags = ?f\<rparr>"
  have ex: "\<exists>m. match_at ?re (prev_at doc j) (drop j doc) j = Some m"
    if "line_start doc j" "marker_first mks (drop j doc)" for j
    by (rule plain_match_exists[OF that]) simp_all
  show ?case
  proof (cases "exec ?re doc i")
    case None
    have 1: "singleLineLoop ?re doc i p = Some (Inr p)"
      by (subst singleLineLoop.simps) (simp add: None)
    have 2: "False" if "i \<le> j" "line_start doc j" "marker_first mks (drop j doc)" for j
    proof -
      from that(2) have "j \<le> length doc" by (simp add: line_start_def)
      from exec_None[OF None that(1) this] ex[OF that(2,3)] show False by simp
    qed
    from 1 2 show ?thesis by (intro exI[of _ p]) blast
  next
    case (Some m)
    let ?k = "m_index m"
    let ?n = "length (m_0 m)"
    let ?R = "new_Range (positionAt doc ?k) (positionAt doc (?k + ?n))"
    from exec_match_at[OF Some] have k: "i \<le> ?k" "?k \<le> length doc"
      and ma: "match_at ?re (prev_at doc ?k) (drop ?k doc) ?k = Some m" by simp_all
    from exec_within[OF Some] have w: "?k + ?n \<le> length doc" "m_0 m = take ?n (drop ?k doc)"
      by (simp_all add: match_within_def)
    have fl: "ignoreCase ?f" by simp
    note s = plain_match_sound[OF ma fl ne ok]
    from s(5) obtain g mk where g: "m_group m 3 = Some g" "mk \<in> set mks" "toLowerCase mk = toLowerCase g"
      by blast
    from g(2) less.prems(1) have "mk \<in> set (map tag (tags p))" by simp
    from singleLineBody_found[OF less.prems(2) g(1) this g(3)] obtain i0 where
      i0: "i0 < length (tags p)" "singleLineBody doc m p = Inr (pushRange i0 ?R p)" by blast
    let ?p1 = "pushRange i0 ?R p"
    have step: "singleLineLoop ?re doc i p = singleLineLoop ?re doc (?k + ?n) ?p1"
      by (subst singleLineLoop.simps) (simp add: Some i0(2))
    from s(2) have n: "0 < ?n" by simp
    with k(1) w(1) have "Suc (length doc) - (?k + ?n) < Suc (length doc) - i" by linarith
    moreover from less.prems(1) have "map tag (tags ?p1) = mks" by simp
    moreover from less.prems(2) have "\<not> ignoreFirstLine ?p1" by simp
    ultimately obtain p' where p': "singleLineLoop ?re doc (?k + ?n) ?p1 = Some (Inr p')"
      "\<forall>r. emitted ?p1 r \<longrightarrow> emitted p' r"
      "\<forall>j. ?k + ?n \<le> j \<and> line_start doc j \<and> marker_first mks (drop j doc) \<longrightarrow>
          (\<exists>u. emitted p' (new_Range (positionAt doc j) (positionAt doc (j + length u))) \<and>
               take (length u) (drop j doc) = u)"
      using less.hyps[of "?k + ?n" ?p1] by blast
    have mono: "\<forall>r. emitted p r \<longrightarrow> emitted p' r"
      using p'(2) emitted_pushRange_old by blast
    have here: "emitted p' ?R"
      using p'(2) emitted_pushRange_new[OF i0(1)] by blast
    have compl: "\<exists>u. emitted p' (new_Range (positionAt doc j) (positionAt doc (j + length u))) \<and>
               take (length u) (drop j doc) = u"
      if j: "i \<le> j" "line_start doc j" "marker_first mks (drop j doc)" for j
    proof -
      consider "j < ?k" | "j = ?k" | "?k < j" "j < ?k + ?n" | "?k + ?n \<le> j" by linarith
      then show ?thesis
      proof cases
        case 1
        from exec_first[OF Some j(1) 1] ex[OF j(2,3)] show ?thesis by simp
      next
        case 2
        with here w(2) show ?thesis by (intro exI[of _ "m_0 m"]) simp
      next
        case 3
        from 3(1) j(2) have t: "is_line_terminator (doc ! (j - 1))" by (simp add: line_start_def)
        from 3 have a: "j - 1 - ?k < ?n" "?k + (j - 1 - ?k) = j - 1" by simp_all
        from a(1) have "take ?n (drop ?k doc) ! (j - 1 - ?k) = drop ?k doc ! (j - 1 - ?k)" by simp
        also from k(2) have "\<dots> = doc ! (?k + (j - 1 - ?k))" by simp
        finally have "m_0 m ! (j - 1 - ?k) = doc ! (j - 1)" using w(2) a(2) by simp
        moreover from a(1) have "m_0 m ! (j - 1 - ?k) \<in> set (m_0 m)" by (rule nth_mem)
        ultimately show ?thesis using s(3) t by auto
      next
        case 4
        with p'(3) j(2,3) show ?thesis by blast
      qed
    qed
    from step p'(1) mono compl show ?thesis by (intro exI[of _ p']) simp
  qed
qed

lemma SetRegex_plaintext:
  assumes "registry_ok p0" "highlightPlainText (contributions p0)"
  shows "expression (SetRegex ''plaintext'' p0) =
           plainStart @ ''('' @ join ''|'' (map escapedMarker (markers p0)) @ '')+(.*)''"
    and "isPlainText (SetRegex ''plaintext'' p0)"
    and "\<not> ignoreFirstLine (SetRegex ''plaintext'' p0)"
    and "highlightSingleLineComments (SetRegex ''plaintext'' p0) = highlightSingleLineComments p0"
proof -
  let ?p = "setDelimiter ''plaintext'' p0"
  from assms(1) have "registry_ok ?p" by (simp add: registry_ok_def)
  from characters_markers[OF this] have c: "characters ?p = map escapedMarker (markers p0)"
    by (simp add: markers_def)
  have s: "supportedLanguage ?p" "isPlainText ?p" "highlightPlainText (contributions ?p)"
    "\<not> ignoreFirstLine ?p" "highlightSingleLineComments ?p = highlightSingleLineComments p0"
    using assms(2) by (simp_all add: setDelimiter_plaintext)
  have e: "SetRegex ''plaintext'' p0 =
      ?p\<lparr>expression := plainStart @ ''('' @ join ''|'' (map escapedMarker (markers p0)) @ '')+(.*)''\<rparr>"
    unfolding SetRegex_def Let_def c plainStart_def using s(1-3) by simp
  show "expression (SetRegex ''plaintext'' p0) =
           plainStart @ ''('' @ join ''|'' (map escapedMarker (markers p0)) @ '')+(.*)''"
    unfolding e by simp
  show "isPlainText (SetRegex ''plaintext'' p0)" unfolding e using s(2) by simp
  show "\<not> ignoreFirstLine (SetRegex ''plaintext'' p0)" unfolding e using s(4) by simp
  show "highlightSingleLineComments (SetRegex ''plaintext'' p0) = highlightSingleLineComments p0"
    unfolding e using s(5) by simp
qed

lemma new_RegExp_plaintext:
  assumes "registry_ok p0" "highlightPlainText (contributions p0)"
  shows "new_RegExp (expression (SetRegex ''plaintext'' p0)) ''igm'' =
           Inr \<lparr>re_source = plainTextRegex (markers p0),
                re_flags = \<lparr>ignoreCase = True, multiline = True\<rparr>\<rparr>"
proof -
  have "parse_pattern (expression (SetRegex ''plaintext'' p0)) = Some (plainTextRegex (markers p0))"
    unfolding SetRegex_plaintext(1)[OF assms] by (rule parse_plain_expression)
  then show ?thesis by (simp add: new_RegExp_def)
qed

lemma line_start_prev:
  assumes "at_line_start \<lparr>ignoreCase = a, multiline = b\<rparr> (start_state (prev_at doc k) rest)" "k \<le> length doc"
  shows "line_start doc k"
  using assms by (auto simp: at_line_start_def start_state_def prev_at_def line_start_def split: if_splits)

section \<open>What the scans add to the buffers\<close>

lemma pos_le_refl [simp]: "pos_le a a"
  by (simp add: pos_le_def isBefore_def)

lemma pos_le_trans: "pos_le a b \<Longrightarrow> pos_le b c \<Longrightarrow> pos_le a c"
  by (auto simp: pos_le_def isBefore_def)

lemma pos_le_next [simp]: "pos_le a (next_line a)" "pos_le a (next_column a)"
  by (simp_all add: pos_le_def isBefore_def next_line_def next_column_def)

lemma walk_crlf:
  "c = CR \<and> take 1 cs = [LF] \<Longrightarrow>
   walk (c # cs) (Suc n) pos = (case n of 0 \<Rightarrow> pos | Suc n' \<Rightarrow> walk (tl cs) n' (next_line pos))"
  by simp

lemma walk_break:
  "\<not> (c = CR \<and> take 1 cs = [LF]) \<Longrightarrow> is_line_terminator c \<Longrightarrow>
   walk (c # cs) (Suc n) pos = walk cs n (next_line pos)"
  by auto

lemma walk_column:
  "\<not> (c = CR \<and> take 1 cs = [LF]) \<Longrightarrow> \<not> is_line_terminator c \<Longrightarrow>
   walk (c # cs) (Suc n) pos = walk cs n (next_column pos)"
  by auto

lemma walk_ge: "pos_le pos (walk cs n pos)"
proof (induction cs n pos rule: walk.induct)
  case (3 c cs n pos)
  show ?case
  proof (cases "c = CR \<and> take 1 cs = [LF]")
    case True
    show ?thesis
    proof (cases n)
      case 0
      show ?thesis unfolding walk_crlf[OF True] 0 by simp
    next
      case (Suc n')
      from "3.IH"(1)[OF True Suc] have "pos_le (next_line pos) (walk (tl cs) n' (next_line pos))" .
      then show ?thesis unfolding walk_crlf[OF True] Suc
        by (auto intro: pos_le_trans[OF pos_le_next(1)])
    qed
  next
    case False
    show ?thesis
    proof (cases "is_line_terminator c")
      case True
      from "3.IH"(2)[OF False True] show ?thesis unfolding walk_break[OF False True]
        by (auto intro: pos_le_trans[OF pos_le_next(1)])
    next
      case t: False
      from "3.IH"(3)[OF False t] show ?thesis unfolding walk_column[OF False t]
        by (auto intro: pos_le_trans[OF pos_le_next(2)])
    qed
  qed
qed simp_all

lemma walk_mono: "a \<le> b \<Longrightarrow> pos_le (walk cs a pos) (walk cs b pos)"
proof (induction cs a pos arbitrary: b rule: walk.induct)
  case (1 n pos)
  show ?case by simp
next
  case (2 c cs pos)
  show ?case using walk_ge[of pos "c # cs" b] by simp
next
  case (3 c cs n pos)
  from "3.prems" obtain b' where b: "b = Suc b'" "n \<le> b'" by (cases b) auto
  show ?case
  proof (cases "c = CR \<and> take 1 cs = [LF]")
    case True
    show ?thesis
    proof (cases n)
      case 0
      have "pos_le pos (walk (c # cs) (Suc b') pos)" by (rule walk_ge)
      then show ?thesis unfolding b(1) 0 walk_crlf[OF True, of 0] by simp
    next
      case (Suc n')
      with b obtain b'' where b'': "b' = Suc b''" "n' \<le> b''" by (cases b') auto
      from "3.IH"(1)[OF True Suc b''(2)] show ?thesis
        unfolding b(1) b''(1) Suc walk_crlf[OF True] by simp
    qed
  next
    case False
    show ?thesis
    proof (cases "is_line_terminator c")
      case True
      from "3.IH"(2)[OF False True b(2)] show ?thesis
        unfolding b(1) walk_break[OF False True] .
    next
      case t: False
      from "3.IH"(3)[OF False t b(2)] show ?thesis
        unfolding b(1) walk_column[OF False t] .
    qed
  qed
qed

lemma positionAt_mono: "a \<le> b \<Longrightarrow> pos_le (positionAt doc a) (positionAt doc b)"
  unfolding positionAt_def by (rule walk_mono)

lemma new_Range_ordered:
  "a \<le> b \<Longrightarrow> new_Range (positionAt doc a) (positionAt doc b) =
     \<lparr>range_start = positionAt doc a, range_end = positionAt doc b\<rparr>"
  using positionAt_mono[of a b doc] by (simp add: new_Range_def pos_le_def)



lemma find_index_of_first: "find_index_of w ts = Some j \<longleftrightarrow> first_spelling ts w j"
proof (induction ts arbitrary: j)
  case Nil
  show ?case by (simp add: first_spelling_def)
next
  case (Cons t ts)
  show ?case
  proof (cases "toLowerCase (tag t) = toLowerCase w")
    case True
    have "first_spelling (t # ts) w j \<longleftrightarrow> j = 0"
    proof
      assume a: "first_spelling (t # ts) w j"
      show "j = 0"
      proof (rule ccontr)
        assume "j \<noteq> 0"
        with a have "toLowerCase (tag ((t # ts) ! 0)) \<noteq> toLowerCase w"
          unfolding first_spelling_def by blast
        with True show False by simp
      qed
    next
      assume "j = 0"
      with True show "first_spelling (t # ts) w j" by (simp add: first_spelling_def)
    qed
    with True show ?thesis by auto
  next
    case False
    have "first_spelling (t # ts) w j \<longleftrightarrow> (\<exists>j0. j = Suc j0 \<and> first_spelling ts w j0)"
    proof
      assume a: "first_spelling (t # ts) w j"
      with False obtain j0 where j0: "j = Suc j0" by (cases j) (auto simp: first_spelling_def)
      from a j0 have "j0 < length ts" "toLowerCase (tag (ts ! j0)) = toLowerCase w"
        by (simp_all add: first_spelling_def)
      moreover have "toLowerCase (tag (ts ! j')) \<noteq> toLowerCase w" if "j' < j0" for j'
      proof -
        from that j0 have "Suc j' < j" by simp
        with a have "toLowerCase (tag ((t # ts) ! Suc j')) \<noteq> toLowerCase w"
          unfolding first_spelling_def by blast
        then show ?thesis by simp
      qed
      ultimately have "first_spelling ts w j0" by (simp add: first_spelling_def)
      with j0 show "\<exists>j0. j = Suc j0 \<and> first_spelling ts w j0" by blast
    next
      assume "\<exists>j0. j = Suc j0 \<and> first_spelling ts w j0"
      then obtain j0 where j0: "j = Suc j0" "first_spelling ts w j0" by blast
      have "toLowerCase (tag ((t # ts) ! j')) \<noteq> toLowerCase w" if "j' < j" for j'
      proof (cases j')
        case 0
        with False show ?thesis by simp
      next
        case (Suc j'')
        with that j0 have "j'' < j0" by simp
        with j0(2) Suc show ?thesis by (simp add: first_spelling_def)
      qed
      with j0 show "first_spelling (t # ts) w j" by (simp add: first_spelling_def)
    qed
    with False Cons.IH show ?thesis by auto
  qed
qed

lemma find_index_of_cong:
  "map tag ts = map tag ts' \<Longrightarrow> find_index_of w ts = find_index_of w ts'"
proof (induction ts arbitrary: ts')
  case Nil
  then show ?case by simp
next
  case (Cons t ts)
  then obtain t' ts'' where "ts' = t' # ts''" "tag t = tag t'" "map tag ts = map tag ts''"
    by (cases ts') auto
  with Cons.IH[of ts''] show ?case by simp
qed

lemma taken_step:
  assumes "exec re doc i = Some m"
  shows "taken re doc i m' \<longleftrightarrow> m' = m \<or> taken re doc (m_index m + length (m_0 m)) m'"
proof
  assume "taken re doc i m'"
  then show "m' = m \<or> taken re doc (m_index m + length (m_0 m)) m'"
    using assms by (cases rule: taken.cases) auto
next
  assume "m' = m \<or> taken re doc (m_index m + length (m_0 m)) m'"
  with assms show "taken re doc i m'" by (auto intro: taken.intros)
qed

lemma taken_none: "exec re doc i = None \<Longrightarrow> \<not> taken re doc i m"
  by (auto elim: taken.cases)

lemma singleLineBody_cases:
  assumes "m_group m 3 = Some w"
  shows "singleLineBody doc m p =
     Inr (if ignoreFirstLine p \<and> positionAt doc (m_index m) = origin then p
          else case find_index_of w (tags p) of
                 None \<Rightarrow> p
               | Some j \<Rightarrow> pushRange j (new_Range (positionAt doc (m_index m))
                                    (positionAt doc (m_index m + length (m_0 m)))) p)"
proof (cases "tags p")
  case Nil
  with assms show ?thesis
    by (simp add: singleLineBody_def Let_def addMatch_def origin_def Position.equality)
next
  case (Cons t ts)
  with assms show ?thesis
    by (cases "positionAt doc (m_index m)")
       (simp add: singleLineBody_def Let_def addMatch_def origin_def split: option.splits)
qed

lemma pushRange_parts:
  "map tag (tags (pushRange j r p)) = map tag (tags p)"
  "ignoreFirstLine (pushRange j r p) = ignoreFirstLine p"
  "length (tags (pushRange j r p)) = length (tags p)"
  "pushRange j r p = p\<lparr>tags := tags (pushRange j r p)\<rparr>"
  by (simp, simp_all add: pushRange_def)

lemma pushRange_nth:
  "j' < length (tags p) \<Longrightarrow>
   tags (pushRange j r p) ! j' =
     (tags p ! j')\<lparr>ranges := ranges (tags p ! j') @ (if j' = j then [r] else [])\<rparr>"
  by (simp add: pushRange_def nth_list_update)

lemma singleLineLoop_total:
  assumes ne: "\<And>i m. exec re doc i = Some m \<Longrightarrow> m_0 m \<noteq> [] \<and> m_group m 3 \<noteq> None"
  shows "\<exists>p'. singleLineLoop re doc i p = Some (Inr p') \<and> p' = p\<lparr>tags := tags p'\<rparr> \<and>
     length (tags p') = length (tags p) \<and>
     (\<forall>j < length (tags p). \<exists>new.
        tags p' ! j = (tags p ! j)\<lparr>ranges := ranges (tags p ! j) @ new\<rparr> \<and>
        (\<forall>r. r \<in> set new \<longleftrightarrow>
           (\<exists>m w. taken re doc i m \<and>
              \<not> (ignoreFirstLine p \<and> positionAt doc (m_index m) = origin) \<and>
              m_group m 3 = Some w \<and> find_index_of w (tags p) = Some j \<and> r = matchRange doc m)))"
proof (induction "Suc (length doc) - i" arbitrary: i p rule: less_induct)
  case less
  show ?case
  proof (cases "exec re doc i")
    case None
    have 1: "singleLineLoop re doc i p = Some (Inr p)"
      by (subst singleLineLoop.simps) (simp add: None)
    have 2: "\<exists>new. tags p ! j = (tags p ! j)\<lparr>ranges := ranges (tags p ! j) @ new\<rparr> \<and>
        (\<forall>r. r \<in> set new \<longleftrightarrow>
           (\<exists>m w. taken re doc i m \<and>
              \<not> (ignoreFirstLine p \<and> positionAt doc (m_index m) = origin) \<and>
              m_group m 3 = Some w \<and> find_index_of w (tags p) = Some j \<and> r = matchRange doc m))" for j
      by (rule exI[of _ "[]"]) (simp add: taken_none[OF None])
    from 1 2 show ?thesis by (intro exI[of _ p]) simp
  next
    case (Some m)
    let ?k = "m_index m"
    let ?n = "length (m_0 m)"
    from ne[OF Some] obtain w where w: "m_group m 3 = Some w" and n: "0 < ?n" by auto
    from exec_within[OF Some] have b: "i \<le> ?k" "?k + ?n \<le> length doc"
      by (simp_all add: match_within_def)
    have R: "new_Range (positionAt doc ?k) (positionAt doc (?k + ?n)) = matchRange doc m"
      unfolding matchRange_def by (rule new_Range_ordered) simp
    define skip where "skip \<longleftrightarrow> ignoreFirstLine p \<and> positionAt doc ?k = origin"
    define p1 where "p1 = (if skip then p
          else case find_index_of w (tags p) of
                 None \<Rightarrow> p | Some j \<Rightarrow> pushRange j (matchRange doc m) p)"
    have body: "singleLineBody doc m p = Inr p1"
      unfolding singleLineBody_cases[OF w] p1_def skip_def R ..
    have step: "singleLineLoop re doc i p = singleLineLoop re doc (?k + ?n) p1"
      by (subst singleLineLoop.simps) (simp add: Some body)
    have parts: "map tag (tags p1) = map tag (tags p)" "ignoreFirstLine p1 = ignoreFirstLine p"
      "length (tags p1) = length (tags p)" "p1 = p\<lparr>tags := tags p1\<rparr>"
      unfolding p1_def by (simp_all add: pushRange_parts(1-3) pushRange_parts(4)[symmetric] split: option.splits)
    have nth1: "tags p1 ! j = (tags p ! j)\<lparr>ranges := ranges (tags p ! j) @
          (if \<not> skip \<and> find_index_of w (tags p) = Some j then [matchRange doc m] else [])\<rparr>"
      if "j < length (tags p)" for j
      unfolding p1_def using that by (auto simp: pushRange_nth split: option.splits)
    from n b have "Suc (length doc) - (?k + ?n) < Suc (length doc) - i" by linarith
    from less.hyps[OF this, of p1] obtain p' where
      p': "singleLineLoop re doc (?k + ?n) p1 = Some (Inr p')" "p' = p1\<lparr>tags := tags p'\<rparr>"
        "length (tags p') = length (tags p1)"
        "\<forall>j < length (tags p1). \<exists>new.
          tags p' ! j = (tags p1 ! j)\<lparr>ranges := ranges (tags p1 ! j) @ new\<rparr> \<and>
          (\<forall>r. r \<in> set new \<longleftrightarrow>
             (\<exists>m w. taken re doc (?k + ?n) m \<and>
                \<not> (ignoreFirstLine p1 \<and> positionAt doc (m_index m) = origin) \<and>
                m_group m 3 = Some w \<and> find_index_of w (tags p1) = Some j \<and> r = matchRange doc m))"
      by (elim exE conjE)
    have fi: "find_index_of v (tags p1) = find_index_of v (tags p)" for v
      by (rule find_index_of_cong[OF parts(1)])
    have 3: "\<exists>new. tags p' ! j = (tags p ! j)\<lparr>ranges := ranges (tags p ! j) @ new\<rparr> \<and>
        (\<forall>r. r \<in> set new \<longleftrightarrow>
           (\<exists>m w. taken re doc i m \<and>
              \<not> (ignoreFirstLine p \<and> positionAt doc (m_index m) = origin) \<and>
              m_group m 3 = Some w \<and> find_index_of w (tags p) = Some j \<and> r = matchRange doc m))"
      if j: "j < length (tags p)" for j
    proof -
      from j parts(3) p'(4) obtain new1 where
        n1: "tags p' ! j = (tags p1 ! j)\<lparr>ranges := ranges (tags p1 ! j) @ new1\<rparr>"
          "\<forall>r. r \<in> set new1 \<longleftrightarrow>
             (\<exists>m w. taken re doc (?k + ?n) m \<and>
                \<not> (ignoreFirstLine p1 \<and> positionAt doc (m_index m) = origin) \<and>
                m_group m 3 = Some w \<and> find_index_of w (tags p1) = Some j \<and> r = matchRange doc m)"
        by auto
      let ?a = "if \<not> skip \<and> find_index_of w (tags p) = Some j then [matchRange doc m] else []"
      have e: "tags p' ! j = (tags p ! j)\<lparr>ranges := ranges (tags p ! j) @ (?a @ new1)\<rparr>"
        unfolding n1(1) nth1[OF j] by simp
      have "r \<in> set (?a @ new1) \<longleftrightarrow>
           (\<exists>m w. taken re doc i m \<and>
              \<not> (ignoreFirstLine p \<and> positionAt doc (m_index m) = origin) \<and>
              m_group m 3 = Some w \<and> find_index_of w (tags p) = Some j \<and> r = matchRange doc m)" for r
      proof -
        let ?C = "\<lambda>ma v. \<not> (ignoreFirstLine p \<and> positionAt doc (m_index ma) = origin) \<and>
              m_group ma 3 = Some v \<and> find_index_of v (tags p) = Some j \<and> r = matchRange doc ma"
        let ?T = "taken re doc (?k + ?n)"
        have a: "r \<in> set ?a \<longleftrightarrow> ?C m w"
          using w by (auto simp: skip_def)
        have b: "r \<in> set new1 \<longleftrightarrow> (\<exists>ma v. ?T ma \<and> ?C ma v)"
          using n1(2) unfolding fi parts(2) by simp
        have "(?C m w \<or> (\<exists>ma v. ?T ma \<and> ?C ma v)) \<longleftrightarrow> (\<exists>ma v. (ma = m \<or> ?T ma) \<and> ?C ma v)"
        proof
          assume "?C m w \<or> (\<exists>ma v. ?T ma \<and> ?C ma v)"
          then show "\<exists>ma v. (ma = m \<or> ?T ma) \<and> ?C ma v"
          proof
            assume "?C m w"
            then show ?thesis by (intro exI[of _ m] exI[of _ w]) simp
          next
            assume "\<exists>ma v. ?T ma \<and> ?C ma v"
            then obtain ma v where "?T ma" "?C ma v" by blast
            then show ?thesis by (intro exI[of _ ma] exI[of _ v]) simp
          qed
        next
          assume "\<exists>ma v. (ma = m \<or> ?T ma) \<and> ?C ma v"
          then obtain ma v where d: "ma = m \<or> ?T ma" "?C ma v" by blast
          from d(1) show "?C m w \<or> (\<exists>ma v. ?T ma \<and> ?C ma v)"
          proof
            assume "ma = m"
            with d(2) w have "?C m w" by simp
            then show ?thesis ..
          next
            assume "?T ma"
            with d(2) have "\<exists>ma v. ?T ma \<and> ?C ma v" by blast
            then show ?thesis ..
          qed
        qed
        then show ?thesis
          unfolding set_append Un_iff taken_step[OF Some] a b .
      qed
      with e show ?thesis by blast
    qed
    from p'(2) parts(4) have 4: "p' = p\<lparr>tags := tags p'\<rparr>"
      by (metis Parser.surjective Parser.update_convs(1))
    from step p'(1) 4 p'(3) parts(3) 3 show ?thesis by (intro exI[of _ p']) simp
  qed
qed

lemma exec_hit: "exec re doc i = Some m \<Longrightarrow> i \<le> m_index m \<and> hit re doc (m_index m) m"
  using exec_match_at[of re doc i m] by (simp add: hit_def)

lemma hit_index: "hit re doc k m \<Longrightarrow> m_index m = k"
  using match_at_within[of re "prev_at doc k" "drop k doc" k m] by (simp add: hit_def)

lemma hit_text:
  assumes "hit re doc k m"
  shows "k + length (m_0 m) \<le> length doc" "take (length (m_0 m)) (drop k doc) = m_0 m"
proof -
  from assms have k: "k \<le> length doc" "match_at re (prev_at doc k) (drop k doc) k = Some m"
    by (simp_all add: hit_def)
  from match_at_within[OF k(2)] have w: "length (m_0 m) \<le> length (drop k doc)"
    "m_0 m = take (length (m_0 m)) (drop k doc)" by simp_all
  from w(1) k(1) show "k + length (m_0 m) \<le> length doc" by simp
  from w(2) show "take (length (m_0 m)) (drop k doc) = m_0 m" by simp
qed

lemma taken_hit: "taken re doc i m \<Longrightarrow> i \<le> m_index m \<and> hit re doc (m_index m) m"
proof (induction rule: taken.induct)
  case (first i m)
  then show ?case by (rule exec_hit)
next
  case (later i m m')
  from exec_hit[OF later(1)] later(3) show ?case by simp
qed

lemma taken_exec: "taken re doc i m \<Longrightarrow> \<exists>i'. exec re doc i' = Some m"
  by (induction rule: taken.induct) blast+

lemma taken_complete:
  assumes ne: "\<And>i m. exec re doc i = Some m \<Longrightarrow> m_0 m \<noteq> []"
    and h: "hit re doc k m"
  shows "i \<le> k \<Longrightarrow>
     (\<And>k' m'. i \<le> k' \<Longrightarrow> k' < k \<Longrightarrow> hit re doc k' m' \<Longrightarrow> k' + length (m_0 m') \<le> k) \<Longrightarrow>
     taken re doc i m"
proof (induction "k - i" arbitrary: i rule: less_induct)
  case less
  from h have k: "k \<le> length doc" "match_at re (prev_at doc k) (drop k doc) k = Some m"
    by (simp_all add: hit_def)
  show ?case
  proof (cases "exec re doc i")
    case None
    from exec_None[OF None less.prems(1) k(1)] k(2) show ?thesis by simp
  next
    case (Some m1)
    let ?k1 = "m_index m1"
    from exec_hit[OF Some] have 1: "i \<le> ?k1" "hit re doc ?k1 m1" by simp_all
    have "\<not> k < ?k1"
    proof
      assume "k < ?k1"
      from exec_first[OF Some less.prems(1) this] k(2) show False by simp
    qed
    then consider "?k1 = k" | "?k1 < k" by linarith
    then show ?thesis
    proof cases
      case 1
      with \<open>hit re doc ?k1 m1\<close> k(2) have "m1 = m" by (simp add: hit_def)
      with Some show ?thesis by (auto intro: taken.first)
    next
      case 2
      from less.prems(2)[OF 1(1) 2 1(2)] have a: "?k1 + length (m_0 m1) \<le> k" .
      from ne[OF Some] have "0 < length (m_0 m1)" by simp
      with 1(1) a have "k - (?k1 + length (m_0 m1)) < k - i" by linarith
      from less.hyps[OF this a] less.prems(2) 1(1)
      have "taken re doc (?k1 + length (m_0 m1)) m" by simp
      with Some show ?thesis by (rule taken.later)
    qed
  qed
qed

lemma reach_tagStar_last:
  assumes "reach f (RStar g (RGroup 3 (alternation ws))) s u s'" "ws \<noteq> []"
  shows "\<exists>ks. u = concat ks \<and> (\<forall>k \<in> set ks. \<exists>t \<in> set ws. ci f k t) \<and>
           (if ks = [] then s' = s else m_caps s' 3 = Some (last ks))"
  using assms(1)
proof (induction rule: reach_Star_induct)
  case (refl s)
  show ?case by (rule exI[of _ "[]"]) simp
next
  case (step s u1 s1 u2 s')
  from step(2) obtain s0 where s0: "reach f (alternation ws) (clear_groups (RGroup 3 (alternation ws)) s) u1 s0"
    "s1 = s0\<lparr>m_caps := (m_caps s0)(3 := Some u1)\<rparr>"
    by (auto simp: reach_Group)
  from reach_alternation[OF s0(1)] assms(2) obtain t where t: "t \<in> set ws" "ci f u1 t" by auto
  from step.IH obtain ks where ks: "u2 = concat ks" "\<forall>k \<in> set ks. \<exists>t \<in> set ws. ci f k t"
    "if ks = [] then s' = s1 else m_caps s' 3 = Some (last ks)" by blast
  from ks(3) s0(2) have "m_caps s' 3 = Some (last (u1 # ks))" by (cases "ks = []") simp_all
  with ks(1,2) t show ?case by (intro exI[of _ "u1 # ks"]) auto
qed

lemma reach_tagPlus_last:
  assumes "reach f (RPlus g (RGroup 3 (alternation ws))) s u s'" "ws \<noteq> []"
  shows "\<exists>ks. u = concat ks \<and> ks \<noteq> [] \<and> (\<forall>k \<in> set ks. \<exists>t \<in> set ws. ci f k t) \<and>
           m_caps s' 3 = Some (last ks)"
proof -
  from assms(1) obtain u1 u2 s1 where x: "u = u1 @ u2"
    "reach f (RGroup 3 (alternation ws)) (clear_groups (RGroup 3 (alternation ws)) s) u1 s1"
    "reach f (RStar g (RGroup 3 (alternation ws))) s1 u2 s'"
    by (auto simp: reach_Plus)
  from x(2) obtain s0 where s0: "reach f (alternation ws) (clear_groups (RGroup 3 (alternation ws)) s) u1 s0"
    "s1 = s0\<lparr>m_caps := (m_caps s0)(3 := Some u1)\<rparr>"
    by (auto simp: reach_Group)
  from reach_alternation[OF s0(1)] assms(2) obtain t where t: "t \<in> set ws" "ci f u1 t" by auto
  from reach_tagStar_last[OF x(3) assms(2)] obtain ks where ks: "u2 = concat ks"
    "\<forall>k \<in> set ks. \<exists>t \<in> set ws. ci f k t"
    "if ks = [] then s' = s1 else m_caps s' 3 = Some (last ks)" by blast
  from ks(3) s0(2) have "m_caps s' 3 = Some (last (u1 # ks))" by (cases "ks = []") simp_all
  with ks(1,2) t x(1) show ?thesis by (intro exI[of _ "u1 # ks"]) auto
qed

lemma singleLine_tail_marked:
  assumes "reach f (RSeq (RPlus True (RGroup 3 (alternation ws))) (RSeq restOfLineGroup REmpty)) s v s'"
    "ws \<noteq> []" "ignoreCase f"
  shows "\<exists>g. m_caps s' 3 = Some g \<and> marked_text ws g v"
proof -
  from assms(1) obtain u1 u2 s1 where x: "v = u1 @ u2"
    "reach f (RPlus True (RGroup 3 (alternation ws))) s u1 s1" "reach f restOfLineGroup s1 u2 s'"
    unfolding reach_Seq[of f "RPlus True (RGroup 3 (alternation ws))"] reach_Seq_Empty by blast
  from reach_tagPlus_last[OF x(2) assms(2)] obtain ks where ks: "u1 = concat ks" "ks \<noteq> []"
    "\<forall>k \<in> set ks. \<exists>t \<in> set ws. ci f k t" "m_caps s1 3 = Some (last ks)" by blast
  have c: "m_caps s' 3 = m_caps s1 3" by (rule reach_caps[OF x(3)]) simp
  from reach_restOfLineGroup[OF x(3)] have r: "\<forall>c \<in> set u2. \<not> is_line_terminator c" by simp
  from ks(3) have l: "\<forall>k \<in> set ks. \<exists>mk \<in> set ws. toLowerCase k = toLowerCase mk"
    using ci_toLowerCase[OF assms(3)] by blast
  have "marked_text ws (last ks) v"
    unfolding marked_text_def x(1) ks(1)
    by (rule exI[of _ ks], rule exI[of _ u2]) (use ks(2) l r in simp)
  with c ks(4) show ?thesis by simp
qed

lemma plain_hit:
  assumes h: "hit \<lparr>re_source = plainTextRegex mks, re_flags = f\<rparr> doc k m"
    and f: "ignoreCase f" and ne: "mks \<noteq> []"
  shows "line_start doc k"
    "\<exists>ind v g. m_0 m = ind @ v \<and> set ind \<subseteq> {CHR '' '', TAB} \<and> marked_text mks g v \<and>
       m_group m 3 = Some g"
proof -
  from h have k: "k \<le> length doc"
    and ma: "match_at \<lparr>re_source = plainTextRegex mks, re_flags = f\<rparr> (prev_at doc k) (drop k doc) k = Some m"
    by (simp_all add: hit_def)
  from match_at_reach[OF ma] obtain s' where
    r: "reach f (plainTextRegex mks) (start_state (prev_at doc k) (drop k doc)) (m_0 m) s'"
      "m_group m = m_caps s'"
    by auto
  from r(1) obtain u0 u1 u2 s0 s1 where x: "m_0 m = u0 @ u1 @ u2"
    "reach f lineStartGroup (start_state (prev_at doc k) (drop k doc)) u0 s0"
    "reach f indentGroup s0 u1 s1"
    "reach f (RSeq (RPlus True (RGroup 3 (alternation mks))) (RSeq restOfLineGroup REmpty)) s1 u2 s'"
    unfolding plainTextRegex_def reach_Seq[of f lineStartGroup] reach_Seq[of f indentGroup]
    by blast
  from reach_lineStartGroup[OF x(2)] have a: "u0 = []"
    "at_line_start f (start_state (prev_at doc k) (drop k doc))" by simp_all
  from a(2) k show "line_start doc k"
    by (auto simp: at_line_start_def start_state_def prev_at_def line_start_def split: if_splits)
  from reach_indentGroup[OF x(3)] have b: "set u1 \<subseteq> {CHR '' '', TAB}" by simp
  from singleLine_tail_marked[OF x(4) ne f] obtain g where
    g: "m_caps s' 3 = Some g" "marked_text mks g u2" by blast
  from x(1) a(1) have "m_0 m = u1 @ u2" by simp
  with b g r(2) show "\<exists>ind v g. m_0 m = ind @ v \<and> set ind \<subseteq> {CHR '' '', TAB} \<and>
       marked_text mks g v \<and> m_group m 3 = Some g"
    by (intro exI[of _ u1] exI[of _ u2] exI[of _ g]) simp
qed

lemma added_append:
  "tags p' ! j = (tags p ! j)\<lparr>ranges := ranges (tags p ! j) @ new\<rparr> \<Longrightarrow> added p p' j = new"
  by (simp add: added_def)

lemma marked_text_spelled:
  "marked_text mks g v \<Longrightarrow> \<exists>mk \<in> set mks. toLowerCase mk = toLowerCase g"
  unfolding marked_text_def by (metis last_in_set)

lemma hit_covers_prev:
  assumes "hit re doc k' m'" "k' < i" "i < k' + length (m_0 m')"
  shows "doc ! (i - 1) \<in> set (m_0 m')"
proof -
  let ?n = "length (m_0 m')"
  from assms(2,3) have a: "i - 1 - k' < ?n" "k' + (i - 1 - k') = i - 1" by simp_all
  from hit_text[OF assms(1)] have t: "k' + ?n \<le> length doc" "take ?n (drop k' doc) = m_0 m'"
    by simp_all
  from a(1) have "take ?n (drop k' doc) ! (i - 1 - k') = drop k' doc ! (i - 1 - k')" by simp
  also from t(1) have "\<dots> = doc ! (k' + (i - 1 - k'))" by simp
  finally have "m_0 m' ! (i - 1 - k') = doc ! (i - 1)" using t(2) a(2) by simp
  moreover from a(1) have "m_0 m' ! (i - 1 - k') \<in> set (m_0 m')" by (rule nth_mem)
  ultimately show ?thesis by simp
qed

lemma line_start_free:
  assumes "line_start doc i" "hit re doc k' m'" "k' < i"
    "\<forall>c \<in> set (m_0 m'). \<not> is_line_terminator c"
  shows "k' + length (m_0 m') \<le> i"
proof (rule ccontr)
  assume "\<not> k' + length (m_0 m') \<le> i"
  then have "i < k' + length (m_0 m')" by simp
  from hit_covers_prev[OF assms(2,3) this] assms(4) have "\<not> is_line_terminator (doc ! (i - 1))"
    by blast
  with assms(1,3) show False by (simp add: line_start_def)
qed

lemma singleLineLoop_stuck_aux:
  assumes e: "exec re doc i = Some m" "m_index m + length (m_0 m) = i"
    and body: "\<And>p. P p \<Longrightarrow> \<exists>p'. singleLineBody doc m p = Inr p' \<and> P p'"
  shows "singleLineLoop re' doc' i' p = Some y \<Longrightarrow> re' = re \<Longrightarrow> doc' = doc \<Longrightarrow> i' = i \<Longrightarrow>
         P p \<Longrightarrow> False"
proof (induction rule: singleLineLoop_induct)
  case (1 loop regEx dtext lastIndex p y)
  from body[OF 1(6)] obtain p' where p': "singleLineBody doc m p = Inr p'" "P p'" by blast
  from 1(2) e p' 1(3,4,5) have "loop re doc i p' = Some y" by simp
  with 1(1)[of re doc i p' y] 1(3,4,5) p'(2) show ?case by simp
qed

lemma singleLineLoop_stuck:
  assumes "exec re doc i = Some m" "m_index m + length (m_0 m) = i"
    and "\<And>p. P p \<Longrightarrow> \<exists>p'. singleLineBody doc m p = Inr p' \<and> P p'" and "P p"
  shows "singleLineLoop re doc i p = None"
proof (cases "singleLineLoop re doc i p")
  case (Some y)
  from singleLineLoop_stuck_aux[OF assms(1,2,3) Some refl refl refl assms(4)] show ?thesis ..
qed simp

lemma singleLineLoop_next:
  assumes "exec re doc i = Some m" "m_group m 3 = Some w"
  shows "\<exists>p1. singleLineLoop re doc i p = singleLineLoop re doc (m_index m + length (m_0 m)) p1"
  by (subst singleLineLoop.simps) (auto simp add: assms(1) singleLineBody_cases[OF assms(2)])

lemma singleLine_offsets:
  assumes "exec regEx doc i = Some m"
  shows "within doc (singleLineOffsets m)"
    "new_Range (positionAt doc (m_index m)) (positionAt doc (m_index m + length (m_0 m))) =
       offsetRange doc (singleLineOffsets m)"
proof -
  from exec_within[OF assms] show "within doc (singleLineOffsets m)"
    by (simp add: match_within_def within_def singleLineOffsets_def)
  show "new_Range (positionAt doc (m_index m)) (positionAt doc (m_index m + length (m_0 m))) =
       offsetRange doc (singleLineOffsets m)"
    unfolding offsetRange_def singleLineOffsets_def fst_conv snd_conv
    by (rule new_Range_ordered) simp
qed

lemma block_offsets:
  assumes "exec regEx doc i = Some match" "exec commentRegEx (m_0 match) j = Some ln"
    "m_group ln 2 = Some l2"
  shows "within doc (blockOffsets match ln l2)"
    "new_Range (positionAt doc (m_index match + m_index ln + length l2))
               (positionAt doc (m_index match + m_index ln + length (m_0 ln))) =
       offsetRange doc (blockOffsets match ln l2)"
proof -
  from exec_within[OF assms(1)] have a: "m_index match + length (m_0 match) \<le> length doc"
    by (simp add: match_within_def)
  from exec_within[OF assms(2)] assms(3) have b: "m_index ln + length (m_0 ln) \<le> length (m_0 match)"
    "length l2 \<le> length (m_0 ln)"
    by (simp_all add: match_within_def)
  from a b show "within doc (blockOffsets match ln l2)"
    by (simp add: within_def blockOffsets_def)
  show "new_Range (positionAt doc (m_index match + m_index ln + length l2))
               (positionAt doc (m_index match + m_index ln + length (m_0 ln))) =
       offsetRange doc (blockOffsets match ln l2)"
    unfolding offsetRange_def blockOffsets_def fst_conv snd_conv
    by (rule new_Range_ordered) (use b(2) in simp)
qed












lemma same_result_Inr [simp]: "same_result R (Inr p) (Inr q) = R p q"
  by (simp add: same_result_def)

lemma same_result_Inl [simp]: "same_result R (Inl e) y = (y = Inl e)"
  by (simp add: same_result_def)
















section \<open>The claims\<close>

subsection \<open>C2\<close>




subsection \<open>C3\<close>

text \<open>
  Claim C3 (every metacharacter of a marker is escaped in its pattern fragment, which
  therefore matches the marker and nothing else). The first replacement of \<^verbatim>\<open>setTags\<close>
  leaves \<^verbatim>\<open>}\<close> and \<^verbatim>\<open>]\<close> as they are.
\<close>

theorem escapedTag_counterexample:
  "escapedTag (makeTag (plainItem ''a}]'')) = ''a}]''"
  by code_simp

text \<open>
  Claim C3 as amended. The fragment is the marker with a backslash before each of
  \<^verbatim>\<open>( ) [ { * + . $ ^ \ | ? /\<close> and every other character, \<^verbatim>\<open>}\<close> and \<^verbatim>\<open>]\<close> among
  them, copied. Read as a pattern it is the sequence of the marker's characters as
  literals; matched with case, it matches the marker, at the start of any text that
  begins with it, and nothing else.
\<close>

theorem escapedTag_is_literal:
  "escapedTag (makeTag item) = concat (map escapeChar (item_tag item)) \<and>
   parse_pattern (escapedTag (makeTag item)) = Some (lit (item_tag item)) \<and>
   (\<forall>b prev rest idx m.
      match_at \<lparr>re_source = lit (item_tag item), re_flags = \<lparr>ignoreCase = False, multiline = b\<rparr>\<rparr>
        prev rest idx = Some m \<longrightarrow> m_0 m = item_tag item) \<and>
   (\<forall>b prev rest idx.
      match_at \<lparr>re_source = lit (item_tag item), re_flags = \<lparr>ignoreCase = False, multiline = b\<rparr>\<rparr>
        prev (item_tag item @ rest) idx \<noteq> None)"
proof (intro conjI allI impI)
  have e: "escapedTag (makeTag item) = escapedMarker (item_tag item)"
    by (simp add: makeTag_def escapedMarker_def)
  show "escapedTag (makeTag item) = concat (map escapeChar (item_tag item))"
    by (simp add: e escapedMarker_chars)
  show "parse_pattern (escapedTag (makeTag item)) = Some (lit (item_tag item))"
    by (simp add: e parse_escapedMarker)
next
  fix b prev rest idx m
  let ?f = "\<lparr>ignoreCase = False, multiline = b\<rparr>"
  assume "match_at \<lparr>re_source = lit (item_tag item), re_flags = ?f\<rparr> prev rest idx = Some m"
  from match_at_reach[OF this] obtain s' where
    "reach ?f (lit (item_tag item)) (start_state prev rest) (m_0 m) s'" by auto
  from reach_lit[OF this] show "m_0 m = item_tag item" by (simp add: ci_case_sensitive)
next
  fix b prev rest idx
  let ?f = "\<lparr>ignoreCase = False, multiline = b\<rparr>"
  have "ci ?f (item_tag item) (item_tag item)" by (simp add: ci_def)
  from lit_exists[OF this, of "start_state prev (item_tag item @ rest)" rest]
  obtain s' where "reach ?f (lit (item_tag item)) (start_state prev (item_tag item @ rest)) (item_tag item) s'"
    by (auto simp: start_state_def)
  from match_at_exists[of "\<lparr>re_source = lit (item_tag item), re_flags = ?f\<rparr>", simplified, OF this]
  show "match_at \<lparr>re_source = lit (item_tag item), re_flags = ?f\<rparr> prev (item_tag item @ rest) idx \<noteq> None"
    by auto
qed

theorem escapedTag_is_literal_witness:
  "escapedTag (makeTag (plainItem ''a}](/'')) = [CHR ''a'', CHR ''}'', CHR '']'', bsl, CHR ''('', bsl, CHR ''/''] \<and>
   parse_pattern (escapedTag (makeTag (plainItem ''a}](/''))) = Some (lit ''a}](/'') \<and>
   map_option m_0 (match_at \<lparr>re_source = lit ''a}](/'', re_flags = \<lparr>ignoreCase = False, multiline = False\<rparr>\<rparr>
     None ''a}](/ rest'' 0) = Some ''a}](/''"
proof -
  have i: "item_tag (plainItem ''a}](/'') = ''a}](/''" by (simp add: plainItem_def)
  from escapedTag_is_literal[of "plainItem ''a}](/''"]
  have 1: "escapedTag (makeTag (plainItem ''a}](/'')) = concat (map escapeChar ''a}](/'')"
    and 2: "parse_pattern (escapedTag (makeTag (plainItem ''a}](/''))) = Some (lit ''a}](/'')"
    and 3: "\<And>m. match_at \<lparr>re_source = lit ''a}](/'', re_flags = \<lparr>ignoreCase = False, multiline = False\<rparr>\<rparr>
        None ''a}](/ rest'' 0 = Some m \<Longrightarrow> m_0 m = ''a}](/''"
    and 4: "match_at \<lparr>re_source = lit ''a}](/'', re_flags = \<lparr>ignoreCase = False, multiline = False\<rparr>\<rparr>
        None (''a}](/'' @ '' rest'') 0 \<noteq> None"
    unfolding i by blast+
  from 4 obtain m where m: "match_at \<lparr>re_source = lit ''a}](/'', re_flags = \<lparr>ignoreCase = False, multiline = False\<rparr>\<rparr>
        None ''a}](/ rest'' 0 = Some m" by auto
  from 3[OF m] m 1 2 show ?thesis by (simp add: escapeChar_def)
qed

subsection \<open>C5\<close>

text \<open>
  Claim C5 (the single-line scan run twice gives the same ranges; the buffers are
  cleared at the start of a pass). The scan itself appends to what the buffers hold: run
  twice in a row it leaves every range twice.
\<close>

theorem singleLine_twice_counterexample:
  "observe (FindSingleLineComments ''//!''
      (SetRegex ''javascript'' (newParser (sampleConfig False [''!''])))) =
     Some (Inr [(''!'', [\<lparr>range_start = \<lparr>line = 0, character = 0\<rparr>,
                         range_end = \<lparr>line = 0, character = 3\<rparr>\<rparr>])])
   \<and> observe (andThen (FindSingleLineComments ''//!''
                (SetRegex ''javascript'' (newParser (sampleConfig False [''!'']))))
                (FindSingleLineComments ''//!'')) =
     Some (Inr [(''!'', [\<lparr>range_start = \<lparr>line = 0, character = 0\<rparr>,
                         range_end = \<lparr>line = 0, character = 3\<rparr>\<rparr>,
                        \<lparr>range_start = \<lparr>line = 0, character = 0\<rparr>,
                         range_end = \<lparr>line = 0, character = 3\<rparr>\<rparr>])])"
  by code_simp

text \<open>
  Claim C5 as amended. \<^verbatim>\<open>ApplyDecorations\<close> empties every buffer after handing it over, at
  the end of a pass. A single-line scan that starts from the parser \<^verbatim>\<open>ApplyDecorations\<close>
  left, run again after the next \<^verbatim>\<open>ApplyDecorations\<close>, starts from the same parser and
  yields the same ranges in the same order.
\<close>

theorem pass_after_ApplyDecorations_repeats:
  assumes "FindSingleLineComments doc (snd (ApplyDecorations p)) = Some (Inr p1)"
  shows "snd (ApplyDecorations p1) = snd (ApplyDecorations p) \<and>
         FindSingleLineComments doc (snd (ApplyDecorations p1)) = Some (Inr p1) \<and>
         (\<forall>t \<in> set (tags (snd (ApplyDecorations p1))). ranges t = [])"
proof -
  from cleared_FindSingleLineComments[OF assms]
  have c: "snd (ApplyDecorations p1) = snd (ApplyDecorations p)"
    using cleared_idem[of p] by (simp add: cleared_def)
  moreover have "FindSingleLineComments doc (snd (ApplyDecorations p1)) = Some (Inr p1)"
    using c assms by simp
  moreover have "\<forall>t \<in> set (tags (snd (ApplyDecorations p1))). ranges t = []"
    by (simp add: ApplyDecorations_def)
  ultimately show ?thesis by blast
qed

theorem pass_after_ApplyDecorations_repeats_witness:
  "\<exists>p1. FindSingleLineComments ''//!''
          (snd (ApplyDecorations (SetRegex ''javascript'' (newParser (sampleConfig False [''!''])))))
          = Some (Inr p1) \<and>
        rangeMapping p1 = [(''!'', [\<lparr>range_start = \<lparr>line = 0, character = 0\<rparr>,
                                     range_end = \<lparr>line = 0, character = 3\<rparr>\<rparr>])] \<and>
        snd (ApplyDecorations p1) =
          snd (ApplyDecorations (SetRegex ''javascript'' (newParser (sampleConfig False [''!''])))) \<and>
        FindSingleLineComments ''//!'' (snd (ApplyDecorations p1)) = Some (Inr p1) \<and>
        (\<forall>t \<in> set (tags (snd (ApplyDecorations p1))). ranges t = [])"
proof -
  let ?p = "SetRegex ''javascript'' (newParser (sampleConfig False [''!'']))"
  have "observe (FindSingleLineComments ''//!'' (snd (ApplyDecorations ?p))) =
      Some (Inr [(''!'', [\<lparr>range_start = \<lparr>line = 0, character = 0\<rparr>,
                                     range_end = \<lparr>line = 0, character = 3\<rparr>\<rparr>])])"
    by code_simp
  then obtain p1 where p1: "FindSingleLineComments ''//!'' (snd (ApplyDecorations ?p)) = Some (Inr p1)"
    "rangeMapping p1 = [(''!'', [\<lparr>range_start = \<lparr>line = 0, character = 0\<rparr>,
                                     range_end = \<lparr>line = 0, character = 3\<rparr>\<rparr>])]"
    by (blast dest: observe_SomeD)
  from pass_after_ApplyDecorations_repeats[OF p1(1)] p1 show ?thesis by blast
qed

subsection \<open>C6\<close>



subsection \<open>C7\<close>

text \<open>
  Claim C7 (every emitted range lies within the document). Every range held after a
  scan was held before it or is built from the two offsets the scan computes for a match
  of its compiled pattern; these offsets satisfy \<open>0 \<le> start \<le> end \<le> length doc\<close>, and the range
  goes from the position of the first to the position of the second. This holds for the
  single-line scan, the delimiter-bounded block scan and the doc-style block scan.
\<close>

theorem emitted_offsets_in_document:
  "(FindSingleLineComments doc p = Some (Inr p1) \<longrightarrow>
      (\<forall>t \<in> set (tags p1). \<forall>r \<in> set (ranges t). emitted p r \<or>
         (\<exists>regEx i match.
            new_RegExp (expression p) (if isPlainText p then ''igm'' else ''ig'') = Inr regEx \<and>
            exec regEx doc i = Some match \<and>
            within doc (singleLineOffsets match) \<and> r = offsetRange doc (singleLineOffsets match)))) \<and>
   (FindBlockComments doc p = Some (Inr p2) \<longrightarrow>
      (\<forall>t \<in> set (tags p2). \<forall>r \<in> set (ranges t). emitted p r \<or>
         (\<exists>regEx commentRegEx i match j ln l2.
            new_RegExp (blockRegexString p) ''gm'' = Inr regEx \<and>
            new_RegExp (commentMatchString blockLead p) ''igm'' = Inr commentRegEx \<and>
            exec regEx doc i = Some match \<and> exec commentRegEx (m_0 match) j = Some ln \<and>
            m_group ln 2 = Some l2 \<and>
            within doc (blockOffsets match ln l2) \<and> r = offsetRange doc (blockOffsets match ln l2)))) \<and>
   (FindJSDocComments doc p = Some (Inr p3) \<longrightarrow>
      (\<forall>t \<in> set (tags p3). \<forall>r \<in> set (ranges t). emitted p r \<or>
         (\<exists>regEx commentRegEx i match j ln l2.
            new_RegExp jsdocRegexString ''gm'' = Inr regEx \<and>
            new_RegExp (commentMatchString jsdocLead p) ''igm'' = Inr commentRegEx \<and>
            exec regEx doc i = Some match \<and> exec commentRegEx (m_0 match) j = Some ln \<and>
            m_group ln 2 = Some l2 \<and>
            within doc (blockOffsets match ln l2) \<and> r = offsetRange doc (blockOffsets match ln l2))))"
proof (intro conjI impI)
  have old: "ranges_ok (\<lambda>mk r. emitted p r \<or> N r) p" for N
    by (auto simp: ranges_ok_def emitted_def)
  {
    assume a: "FindSingleLineComments doc p = Some (Inr p1)"
    let ?N = "\<lambda>regEx r. \<exists>i match. exec regEx doc i = Some match \<and>
            within doc (singleLineOffsets match) \<and> r = offsetRange doc (singleLineOffsets match)"
    let ?fl = "if isPlainText p then ''igm'' else ''ig''"
    show "\<forall>t \<in> set (tags p1). \<forall>r \<in> set (ranges t). emitted p r \<or>
         (\<exists>regEx i match. new_RegExp (expression p) ?fl = Inr regEx \<and>
            exec regEx doc i = Some match \<and>
            within doc (singleLineOffsets match) \<and> r = offsetRange doc (singleLineOffsets match))"
    proof (cases "highlightSingleLineComments p")
      case False
      with a have "p1 = p" by (simp add: FindSingleLineComments_def)
      then show ?thesis by (auto simp: emitted_def)
    next
      case True
      with a obtain regEx where re: "new_RegExp (expression p) ?fl = Inr regEx"
        and l: "singleLineLoop regEx doc 0 p = Some (Inr p1)"
        by (auto simp: FindSingleLineComments_def split: sum.splits)
      have "ranges_ok (\<lambda>mk r. emitted p r \<or> ?N regEx r) p1"
      proof (rule singleLineLoop_ok[OF l refl old refl refl])
        fix i m
        assume e: "exec regEx doc i = Some m"
        from singleLine_offsets[OF e]
        show "emitted p (new_Range (positionAt doc (m_index m)) (positionAt doc (m_index m + length (m_0 m)))) \<or>
              ?N regEx (new_Range (positionAt doc (m_index m)) (positionAt doc (m_index m + length (m_0 m))))"
          using e by auto
      qed
      with re show ?thesis unfolding ranges_ok_def by blast
    qed
  }
  have blk: "ranges_ok (\<lambda>mk r. emitted p r \<or>
        (\<exists>i match j ln l2. exec regEx doc i = Some match \<and> exec commentRegEx (m_0 match) j = Some ln \<and>
            m_group ln 2 = Some l2 \<and>
            within doc (blockOffsets match ln l2) \<and> r = offsetRange doc (blockOffsets match ln l2))) q"
    if l: "blockLoop regEx commentRegEx doc 0 p = Some (Inr q)" for regEx commentRegEx q
  proof (rule blockLoop_ok[OF l refl old refl])
    fix i match j ln l2
    assume e: "exec regEx doc i = Some match" "exec commentRegEx (m_0 match) j = Some ln"
      "m_group ln 2 = Some l2"
    let ?R = "new_Range (positionAt doc (m_index match + m_index ln + length l2))
                        (positionAt doc (m_index match + m_index ln + length (m_0 ln)))"
    from block_offsets[OF e]
    show "emitted p ?R \<or>
        (\<exists>i match j ln l2. exec regEx doc i = Some match \<and> exec commentRegEx (m_0 match) j = Some ln \<and>
            m_group ln 2 = Some l2 \<and>
            within doc (blockOffsets match ln l2) \<and> ?R = offsetRange doc (blockOffsets match ln l2))"
      using e by blast
  qed
  {
    assume a: "FindBlockComments doc p = Some (Inr p2)"
    show "\<forall>t \<in> set (tags p2). \<forall>r \<in> set (ranges t). emitted p r \<or>
         (\<exists>regEx commentRegEx i match j ln l2.
            new_RegExp (blockRegexString p) ''gm'' = Inr regEx \<and>
            new_RegExp (commentMatchString blockLead p) ''igm'' = Inr commentRegEx \<and>
            exec regEx doc i = Some match \<and> exec commentRegEx (m_0 match) j = Some ln \<and>
            m_group ln 2 = Some l2 \<and>
            within doc (blockOffsets match ln l2) \<and> r = offsetRange doc (blockOffsets match ln l2))"
    proof (cases "highlightMultilineComments p")
      case False
      with a have "p2 = p" by (simp add: FindBlockComments_def)
      then show ?thesis by (auto simp: emitted_def)
    next
      case True
      with a obtain regEx commentRegEx where re: "new_RegExp (blockRegexString p) ''gm'' = Inr regEx"
        "new_RegExp (commentMatchString blockLead p) ''igm'' = Inr commentRegEx"
        and l: "blockLoop regEx commentRegEx doc 0 p = Some (Inr p2)"
        by (auto simp: FindBlockComments_def split: sum.splits)
      from blk[OF l] re show ?thesis unfolding ranges_ok_def by blast
    qed
  }
  {
    assume a: "FindJSDocComments doc p = Some (Inr p3)"
    show "\<forall>t \<in> set (tags p3). \<forall>r \<in> set (ranges t). emitted p r \<or>
         (\<exists>regEx commentRegEx i match j ln l2.
            new_RegExp jsdocRegexString ''gm'' = Inr regEx \<and>
            new_RegExp (commentMatchString jsdocLead p) ''igm'' = Inr commentRegEx \<and>
            exec regEx doc i = Some match \<and> exec commentRegEx (m_0 match) j = Some ln \<and>
            m_group ln 2 = Some l2 \<and>
            within doc (blockOffsets match ln l2) \<and> r = offsetRange doc (blockOffsets match ln l2))"
    proof (cases "\<not> highlightMultilineComments p \<and> \<not> highlightJSDoc p")
      case True
      with a have "p3 = p" by (simp add: FindJSDocComments_def)
      then show ?thesis by (auto simp: emitted_def)
    next
      case False
      with a obtain regEx commentRegEx where re: "new_RegExp jsdocRegexString ''gm'' = Inr regEx"
        "new_RegExp (commentMatchString jsdocLead p) ''igm'' = Inr commentRegEx"
        and l: "blockLoop regEx commentRegEx doc 0 p = Some (Inr p3)"
        by (auto simp: FindJSDocComments_def split: sum.splits)
      from blk[OF l] re show ?thesis unfolding ranges_ok_def by blast
    qed
  }
qed

theorem emitted_offsets_in_document_witness:
  "\<exists>p1 p2 p3.
     FindSingleLineComments sampleDocument
       (SetRegex ''javascript'' (newParser (sampleConfig False [''!'']))) = Some (Inr p1) \<and>
     FindBlockComments sampleDocument
       (SetRegex ''javascript'' (newParser (sampleConfig False [''!'']))) = Some (Inr p2) \<and>
     FindJSDocComments sampleDocument
       (SetRegex ''javascript'' (newParser (sampleConfig False [''!'']))) = Some (Inr p3) \<and>
     rangeMapping p1 = [(''!'', [\<lparr>range_start = \<lparr>line = 6, character = 0\<rparr>,
                                  range_end = \<lparr>line = 6, character = 5\<rparr>\<rparr>])] \<and>
     rangeMapping p2 = [(''!'', [\<lparr>range_start = \<lparr>line = 1, character = 0\<rparr>,
                                  range_end = \<lparr>line = 1, character = 3\<rparr>\<rparr>])] \<and>
     rangeMapping p3 = [(''!'', [\<lparr>range_start = \<lparr>line = 4, character = 3\<rparr>,
                                  range_end = \<lparr>line = 4, character = 6\<rparr>\<rparr>])] \<and>
     (\<forall>t \<in> set (tags p1). \<forall>r \<in> set (ranges t).
         \<exists>regEx i match.
            new_RegExp (expression (SetRegex ''javascript'' (newParser (sampleConfig False [''!''])))) ''ig''
              = Inr regEx \<and>
            exec regEx sampleDocument i = Some match \<and>
            within sampleDocument (singleLineOffsets match) \<and>
            r = offsetRange sampleDocument (singleLineOffsets match)) \<and>
     (\<forall>t \<in> set (tags p2). \<forall>r \<in> set (ranges t).
         \<exists>regEx commentRegEx i match j ln l2.
            exec regEx sampleDocument i = Some match \<and> exec commentRegEx (m_0 match) j = Some ln \<and>
            m_group ln 2 = Some l2 \<and>
            within sampleDocument (blockOffsets match ln l2) \<and>
            r = offsetRange sampleDocument (blockOffsets match ln l2)) \<and>
     (\<forall>t \<in> set (tags p3). \<forall>r \<in> set (ranges t).
         \<exists>regEx commentRegEx i match j ln l2.
            exec regEx sampleDocument i = Some match \<and> exec commentRegEx (m_0 match) j = Some ln \<and>
            m_group ln 2 = Some l2 \<and>
            within sampleDocument (blockOffsets match ln l2) \<and>
            r = offsetRange sampleDocument (blockOffsets match ln l2))"
proof -
  let ?q = "SetRegex ''javascript'' (newParser (sampleConfig False [''!'']))"
  have "observe (FindSingleLineComments sampleDocument ?q) =
      Some (Inr [(''!'', [\<lparr>range_start = \<lparr>line = 6, character = 0\<rparr>,
                                  range_end = \<lparr>line = 6, character = 5\<rparr>\<rparr>])])"
    by code_simp
  then obtain p1 where p1: "FindSingleLineComments sampleDocument ?q = Some (Inr p1)"
    "rangeMapping p1 = [(''!'', [\<lparr>range_start = \<lparr>line = 6, character = 0\<rparr>,
                                  range_end = \<lparr>line = 6, character = 5\<rparr>\<rparr>])]"
    by (blast dest: observe_SomeD)
  have "observe (FindBlockComments sampleDocument ?q) =
      Some (Inr [(''!'', [\<lparr>range_start = \<lparr>line = 1, character = 0\<rparr>,
                                  range_end = \<lparr>line = 1, character = 3\<rparr>\<rparr>])])"
    by code_simp
  then obtain p2 where p2: "FindBlockComments sampleDocument ?q = Some (Inr p2)"
    "rangeMapping p2 = [(''!'', [\<lparr>range_start = \<lparr>line = 1, character = 0\<rparr>,
                                  range_end = \<lparr>line = 1, character = 3\<rparr>\<rparr>])]"
    by (blast dest: observe_SomeD)
  have "observe (FindJSDocComments sampleDocument ?q) =
      Some (Inr [(''!'', [\<lparr>range_start = \<lparr>line = 4, character = 3\<rparr>,
                                  range_end = \<lparr>line = 4, character = 6\<rparr>\<rparr>])])"
    by code_simp
  then obtain p3 where p3: "FindJSDocComments sampleDocument ?q = Some (Inr p3)"
    "rangeMapping p3 = [(''!'', [\<lparr>range_start = \<lparr>line = 4, character = 3\<rparr>,
                                  range_end = \<lparr>line = 4, character = 6\<rparr>\<rparr>])]"
    by (blast dest: observe_SomeD)
  have e: "\<not> emitted ?q r" for r by (simp add: emitted_def ranges_newParser)
  have ip: "\<not> isPlainText ?q"
    by (simp add: SetRegex_def Let_def setDelimiter_def setCommentFormat_def newParser_def setTags_def)
  note t = emitted_offsets_in_document[of sampleDocument ?q p1 p2 p3]
  from t[THEN conjunct1, THEN mp, OF p1(1)] e ip
  have 1: "\<forall>t \<in> set (tags p1). \<forall>r \<in> set (ranges t).
         \<exists>regEx i match. new_RegExp (expression ?q) ''ig'' = Inr regEx \<and>
            exec regEx sampleDocument i = Some match \<and>
            within sampleDocument (singleLineOffsets match) \<and>
            r = offsetRange sampleDocument (singleLineOffsets match)"
    by simp
  from t[THEN conjunct2, THEN conjunct1, THEN mp, OF p2(1)] e
  have 2: "\<forall>t \<in> set (tags p2). \<forall>r \<in> set (ranges t).
         \<exists>regEx commentRegEx i match j ln l2.
            exec regEx sampleDocument i = Some match \<and> exec commentRegEx (m_0 match) j = Some ln \<and>
            m_group ln 2 = Some l2 \<and>
            within sampleDocument (blockOffsets match ln l2) \<and>
            r = offsetRange sampleDocument (blockOffsets match ln l2)"
    by simp blast
  from t[THEN conjunct2, THEN conjunct2, THEN mp, OF p3(1)] e
  have 3: "\<forall>t \<in> set (tags p3). \<forall>r \<in> set (ranges t).
         \<exists>regEx commentRegEx i match j ln l2.
            exec regEx sampleDocument i = Some match \<and> exec commentRegEx (m_0 match) j = Some ln \<and>
            m_group ln 2 = Some l2 \<and>
            within sampleDocument (blockOffsets match ln l2) \<and>
            r = offsetRange sampleDocument (blockOffsets match ln l2)"
    by simp blast
  from p1 p2 p3 1 2 3 show ?thesis
    by (intro exI[of _ p1] exI[of _ p2] exI[of _ p3]) (rule conjI, assumption)+
qed

subsection \<open>C8\<close>

text \<open>
  Claim C8 (plain-text mode recognises a marker exactly when it is the first token on
  its line). With an empty marker in the registry the pattern matches the empty text at
  the start of an empty line, \<^verbatim>\<open>lastIndex\<close> stays where it is and the loop never ends:
  the scan of a marked line followed by a line break does not return.
\<close>

theorem plain_text_empty_marker_counterexample:
  "FindSingleLineComments emptyMarkerDocument
     (SetRegex ''plaintext'' (newParser (sampleConfig True ['''', ''!'']))) = None"
proof -
  let ?q = "newParser (sampleConfig True ['''', ''!''])"
  let ?p = "SetRegex ''plaintext'' ?q"
  let ?re = "\<lparr>re_source = plainTextRegex ['''', ''!''],
              re_flags = \<lparr>ignoreCase = True, multiline = True\<rparr>\<rparr>"
  have r: "registry_ok ?q" by (rule registry_ok_newParser)
  have h: "highlightSingleLineComments ?q" "highlightPlainText (contributions ?q)"
    by (simp_all add: newParser_def setTags_def sampleConfig_def)
  have mk: "markers ?q = ['''', ''!'']"
    by (simp add: markers_def newParser_def setTags_def sampleConfig_def makeTag_def plainItem_def)
  note sr = SetRegex_plaintext[OF r h(2)]
  from h(1) sr(2,4) have fs: "FindSingleLineComments emptyMarkerDocument ?p =
      singleLineLoop ?re emptyMarkerDocument 0 ?p"
    by (simp add: FindSingleLineComments_def new_RegExp_plaintext[OF r h(2)] mk)
  have "map_option (\<lambda>m. (m_index m, m_0 m, m_group m 3)) (exec ?re emptyMarkerDocument 0) =
      Some (0, ''! x'', Some ''!'')" by code_simp
  then obtain m0 where m0: "exec ?re emptyMarkerDocument 0 = Some m0" "m_index m0 = 0"
    "m_0 m0 = ''! x''" "m_group m0 3 = Some ''!''" by auto
  have "map_option (\<lambda>m. (m_index m, m_0 m, m_group m 3)) (exec ?re emptyMarkerDocument 3) =
      Some (4, [], Some [])" by code_simp
  then obtain m1 where m1: "exec ?re emptyMarkerDocument 3 = Some m1" "m_index m1 = 4"
    "m_0 m1 = []" "m_group m1 3 = Some []" by auto
  have "map_option (\<lambda>m. (m_index m, m_0 m, m_group m 3)) (exec ?re emptyMarkerDocument 4) =
      Some (4, [], Some [])" by code_simp
  then obtain m2 where m2: "exec ?re emptyMarkerDocument 4 = Some m2" "m_index m2 = 4"
    "m_0 m2 = []" "m_group m2 3 = Some []" by auto
  from singleLineLoop_next[OF m0(1,4), of ?p] obtain p1 where
    "singleLineLoop ?re emptyMarkerDocument 0 ?p =
       singleLineLoop ?re emptyMarkerDocument (m_index m0 + length (m_0 m0)) p1" ..
  moreover have "m_index m0 + length (m_0 m0) = 3" unfolding m0(2,3) by simp
  ultimately have 1: "singleLineLoop ?re emptyMarkerDocument 0 ?p = singleLineLoop ?re emptyMarkerDocument 3 p1"
    by (simp only:)
  from singleLineLoop_next[OF m1(1,4), of p1] obtain p2 where
    "singleLineLoop ?re emptyMarkerDocument 3 p1 =
       singleLineLoop ?re emptyMarkerDocument (m_index m1 + length (m_0 m1)) p2" ..
  moreover have "m_index m1 + length (m_0 m1) = 4" unfolding m1(2,3) by simp
  ultimately have 2: "singleLineLoop ?re emptyMarkerDocument 3 p1 = singleLineLoop ?re emptyMarkerDocument 4 p2"
    by (simp only:)
  have 3: "singleLineLoop ?re emptyMarkerDocument 4 p2 = None"
  proof (rule singleLineLoop_stuck[OF m2(1), where P = "\<lambda>p. True"])
    show "m_index m2 + length (m_0 m2) = 4" using m2(2,3) by simp
    show "\<exists>p'. singleLineBody emptyMarkerDocument m2 p = Inr p' \<and> True" for p
      by (simp add: singleLineBody_cases[OF m2(4)])
  qed simp
  from fs 1 2 3 show ?thesis by simp
qed

text \<open>
  Claim C8 as amended. The language is \<^verbatim>\<open>"plaintext"\<close> with plain-text highlighting on, and
  the registry holds at least one tag and only markers that are not empty and have no
  line break. Then the single-line scan returns and only appends to the buffers. Every
  range it appends to the buffer of a tag starts at the start of a line that reads, after
  spaces and tabs, one or more spellings of markers, the last of them first spelled by
  that tag, and the rest of the line. Every start of a line whose text goes on, after
  spaces and tabs, with a spelling of a marker gets such a range.
\<close>

theorem plain_text_marker_at_line_start:
  assumes "registry_ok p0" "highlightSingleLineComments p0" "highlightPlainText (contributions p0)"
    and "tags p0 \<noteq> []" "\<forall>t \<in> set (tags p0). tag t \<noteq> [] \<and> CR \<notin> set (tag t) \<and> LF \<notin> set (tag t)"
  shows "\<exists>p'. FindSingleLineComments doc (SetRegex ''plaintext'' p0) = Some (Inr p') \<and>
     length (tags p') = length (tags p0) \<and>
     (\<forall>j < length (tags p0).
        tags p' ! j = (tags p0 ! j)\<lparr>ranges := ranges (tags p0 ! j) @ added p0 p' j\<rparr> \<and>
        (\<forall>r \<in> set (added p0 p' j).
           \<exists>i. line_start doc i \<and> line_range doc (markers p0) (tags p0) i j r)) \<and>
     (\<forall>i. line_start doc i \<and> marker_first (markers p0) (drop i doc) \<longrightarrow>
        (\<exists>j < length (tags p0). \<exists>r \<in> set (added p0 p' j).
           line_range doc (markers p0) (tags p0) i j r))"
proof -
  let ?p = "SetRegex ''plaintext'' p0"
  let ?mks = "markers p0"
  let ?f = "\<lparr>ignoreCase = True, multiline = True\<rparr>"
  let ?re = "\<lparr>re_source = plainTextRegex ?mks, re_flags = ?f\<rparr>"
  note sr = SetRegex_plaintext[OF assms(1,3)]
  from assms(4) have ne: "?mks \<noteq> []" by (simp add: markers_def)
  from assms(5) have ok: "\<forall>mk \<in> set ?mks. mk \<noteq> [] \<and> CR \<notin> set mk \<and> LF \<notin> set mk"
    by (simp add: markers_def)
  have fl: "ignoreCase ?f" by simp
  have tg: "tags ?p = tags p0" by simp
  from assms(2) sr(2,4) have fs: "FindSingleLineComments doc ?p = singleLineLoop ?re doc 0 ?p"
    by (simp add: FindSingleLineComments_def new_RegExp_plaintext[OF assms(1,3)])
  have hs: "m_0 m \<noteq> []" "\<forall>c \<in> set (m_0 m). \<not> is_line_terminator c"
    if "hit ?re doc k m" for k m
    using plain_match_sound(2,3)[OF _ fl ne ok, of "prev_at doc k" "drop k doc" k m] that
    by (simp_all add: hit_def)
  have lr: "line_range doc ?mks (tags p0) k j (matchRange doc m)"
    if h: "hit ?re doc k m" and g: "m_group m 3 = Some w" "find_index_of w (tags p0) = Some j"
    for k m w j
  proof -
    from plain_hit(2)[OF h fl ne] g(1) obtain ind v where
      d: "m_0 m = ind @ v" "set ind \<subseteq> {CHR '' '', TAB}" "marked_text ?mks w v" by auto
    from g(2) have fsp: "first_spelling (tags p0) w j" by (simp add: find_index_of_first)
    from hit_text(2)[OF h] d(1) have t: "take (length (ind @ v)) (drop k doc) = ind @ v" by simp
    have "matchRange doc m =
        \<lparr>range_start = positionAt doc k, range_end = positionAt doc (k + length (ind @ v))\<rparr>"
      unfolding matchRange_def hit_index[OF h] d(1) ..
    with d(2,3) fsp t show ?thesis unfolding line_range_def by blast
  qed
  have nonempty: "m_0 m \<noteq> [] \<and> m_group m 3 \<noteq> None" if "exec ?re doc i = Some m" for i m
  proof -
    from exec_hit[OF that] have h: "hit ?re doc (m_index m) m" by simp
    from plain_hit(2)[OF h fl ne] hs(1)[OF h] show ?thesis by auto
  qed
  have "\<exists>p'. singleLineLoop ?re doc 0 ?p = Some (Inr p') \<and> p' = ?p\<lparr>tags := tags p'\<rparr> \<and>
     length (tags p') = length (tags ?p) \<and>
     (\<forall>j < length (tags ?p). \<exists>new.
        tags p' ! j = (tags ?p ! j)\<lparr>ranges := ranges (tags ?p ! j) @ new\<rparr> \<and>
        (\<forall>r. r \<in> set new \<longleftrightarrow>
           (\<exists>m w. taken ?re doc 0 m \<and>
              \<not> (ignoreFirstLine ?p \<and> positionAt doc (m_index m) = origin) \<and>
              m_group m 3 = Some w \<and> find_index_of w (tags ?p) = Some j \<and> r = matchRange doc m)))"
    by (rule singleLineLoop_total) (rule nonempty)
  then obtain p' where
    pl: "singleLineLoop ?re doc 0 ?p = Some (Inr p') \<and> p' = ?p\<lparr>tags := tags p'\<rparr> \<and>
     length (tags p') = length (tags ?p) \<and>
     (\<forall>j < length (tags ?p). \<exists>new.
        tags p' ! j = (tags ?p ! j)\<lparr>ranges := ranges (tags ?p ! j) @ new\<rparr> \<and>
        (\<forall>r. r \<in> set new \<longleftrightarrow>
           (\<exists>m w. taken ?re doc 0 m \<and>
              \<not> (ignoreFirstLine ?p \<and> positionAt doc (m_index m) = origin) \<and>
              m_group m 3 = Some w \<and> find_index_of w (tags ?p) = Some j \<and> r = matchRange doc m)))"
    ..
  from pl have p1: "singleLineLoop ?re doc 0 ?p = Some (Inr p')" by (elim conjE)
  from pl have p2: "length (tags p') = length (tags p0)" unfolding tg by (elim conjE)
  from pl have "\<forall>j < length (tags ?p). \<exists>new.
        tags p' ! j = (tags ?p ! j)\<lparr>ranges := ranges (tags ?p ! j) @ new\<rparr> \<and>
        (\<forall>r. r \<in> set new \<longleftrightarrow>
           (\<exists>m w. taken ?re doc 0 m \<and>
              \<not> (ignoreFirstLine ?p \<and> positionAt doc (m_index m) = origin) \<and>
              m_group m 3 = Some w \<and> find_index_of w (tags ?p) = Some j \<and> r = matchRange doc m))"
    by (elim conjE)
  then have p3: "tags p' ! j = (tags p0 ! j)\<lparr>ranges := ranges (tags p0 ! j) @ added p0 p' j\<rparr> \<and>
        (\<forall>r. r \<in> set (added p0 p' j) \<longleftrightarrow>
           (\<exists>m w. taken ?re doc 0 m \<and> m_group m 3 = Some w \<and>
              find_index_of w (tags p0) = Some j \<and> r = matchRange doc m))"
    if "j < length (tags p0)" for j
  proof -
    from \<open>\<forall>j < length (tags ?p). _ j\<close> that obtain new where
      n: "tags p' ! j = (tags p0 ! j)\<lparr>ranges := ranges (tags p0 ! j) @ new\<rparr>"
        "\<forall>r. r \<in> set new \<longleftrightarrow>
           (\<exists>m w. taken ?re doc 0 m \<and>
              \<not> (ignoreFirstLine ?p \<and> positionAt doc (m_index m) = origin) \<and>
              m_group m 3 = Some w \<and> find_index_of w (tags ?p) = Some j \<and> r = matchRange doc m)"
      unfolding tg by blast
    from added_append[OF n(1)] n sr(3) show ?thesis unfolding tg by simp
  qed
  have sound: "\<exists>i. line_start doc i \<and> line_range doc ?mks (tags p0) i j r"
    if j: "j < length (tags p0)" and r: "r \<in> set (added p0 p' j)" for j r
  proof -
    from p3[OF j] r obtain m w where m: "taken ?re doc 0 m" "m_group m 3 = Some w"
      "find_index_of w (tags p0) = Some j" "r = matchRange doc m" by blast
    from taken_hit[OF m(1)] have h: "hit ?re doc (m_index m) m" by simp
    from plain_hit(1)[OF h fl ne] lr[OF h m(2,3)] m(4) show ?thesis by blast
  qed
  have compl: "\<exists>j < length (tags p0). \<exists>r \<in> set (added p0 p' j). line_range doc ?mks (tags p0) i j r"
    if i: "line_start doc i" "marker_first ?mks (drop i doc)" for i
  proof -
    from plain_match_exists[OF i, of ?f i] i(1) obtain m where h: "hit ?re doc i m"
      by (auto simp: hit_def line_start_def)
    have t: "taken ?re doc 0 m"
    proof (rule taken_complete[OF _ h])
      show "m_0 m \<noteq> []" if "exec ?re doc i = Some m" for i m
        using nonempty[OF that] by simp
      show "k' + length (m_0 m') \<le> i" if "k' < i" "hit ?re doc k' m'" for k' m'
        by (rule line_start_free[OF i(1) that(2,1) hs(2)[OF that(2)]])
    qed simp
    from plain_hit(2)[OF h fl ne] obtain ind v g where
      d: "marked_text ?mks g v" "m_group m 3 = Some g" by blast
    from marked_text_spelled[OF d(1)] obtain mk where
      mk: "mk \<in> set (map tag (tags p0))" "toLowerCase mk = toLowerCase g"
      by (auto simp: markers_def)
    from find_index_of_exists[OF mk] obtain j where
      j: "j < length (tags p0)" "find_index_of g (tags p0) = Some j" by blast
    from p3[OF j(1)] t d(2) j(2) have "matchRange doc m \<in> set (added p0 p' j)" by blast
    with j(1) lr[OF h d(2) j(2)] show ?thesis by blast
  qed
  from fs p1 p2 p3 sound compl show ?thesis
    by (intro exI[of _ p']) simp
qed

theorem plain_text_marker_at_line_start_witness:
  "\<exists>p'. FindSingleLineComments indentedDocument
           (SetRegex ''plaintext'' (newParser (sampleConfig True [''!'']))) = Some (Inr p') \<and>
     rangeMapping p' = [(''!'', [\<lparr>range_start = \<lparr>line = 0, character = 0\<rparr>,
                                  range_end = \<lparr>line = 0, character = 5\<rparr>\<rparr>])] \<and>
     length (tags p') = length (tags (newParser (sampleConfig True [''!'']))) \<and>
     (\<forall>j < length (tags (newParser (sampleConfig True [''!'']))).
        tags p' ! j = (tags (newParser (sampleConfig True [''!''])) ! j)
           \<lparr>ranges := ranges (tags (newParser (sampleConfig True [''!''])) ! j) @
                      added (newParser (sampleConfig True [''!''])) p' j\<rparr> \<and>
        (\<forall>r \<in> set (added (newParser (sampleConfig True [''!''])) p' j).
           \<exists>i. line_start indentedDocument i \<and>
               line_range indentedDocument (markers (newParser (sampleConfig True [''!''])))
                 (tags (newParser (sampleConfig True [''!'']))) i j r)) \<and>
     (\<forall>i. line_start indentedDocument i \<and>
          marker_first (markers (newParser (sampleConfig True [''!'']))) (drop i indentedDocument) \<longrightarrow>
        (\<exists>j < length (tags (newParser (sampleConfig True [''!'']))).
           \<exists>r \<in> set (added (newParser (sampleConfig True [''!''])) p' j).
             line_range indentedDocument (markers (newParser (sampleConfig True [''!''])))
               (tags (newParser (sampleConfig True [''!'']))) i j r))"
proof -
  let ?p0 = "newParser (sampleConfig True [''!''])"
  have "observe (FindSingleLineComments indentedDocument (SetRegex ''plaintext'' ?p0)) =
      Some (Inr [(''!'', [\<lparr>range_start = \<lparr>line = 0, character = 0\<rparr>,
                           range_end = \<lparr>line = 0, character = 5\<rparr>\<rparr>])])"
    by code_simp
  then obtain p' where p': "FindSingleLineComments indentedDocument (SetRegex ''plaintext'' ?p0) = Some (Inr p')"
    "rangeMapping p' = [(''!'', [\<lparr>range_start = \<lparr>line = 0, character = 0\<rparr>,
                                  range_end = \<lparr>line = 0, character = 5\<rparr>\<rparr>])]"
    by (blast dest: observe_SomeD)
  have r: "registry_ok ?p0" by (rule registry_ok_newParser)
  have h: "highlightSingleLineComments ?p0" "highlightPlainText (contributions ?p0)"
    by (simp_all add: newParser_def setTags_def sampleConfig_def)
  have n: "tags ?p0 \<noteq> []"
    "\<forall>t \<in> set (tags ?p0). tag t \<noteq> [] \<and> CR \<notin> set (tag t) \<and> LF \<notin> set (tag t)"
    by (simp_all add: newParser_def setTags_def sampleConfig_def makeTag_def plainItem_def)
  from plain_text_marker_at_line_start[OF r h n, of indentedDocument] obtain q where
    q: "FindSingleLineComments indentedDocument (SetRegex ''plaintext'' ?p0) = Some (Inr q) \<and>
     length (tags q) = length (tags ?p0) \<and>
     (\<forall>j < length (tags ?p0).
        tags q ! j = (tags ?p0 ! j)\<lparr>ranges := ranges (tags ?p0 ! j) @ added ?p0 q j\<rparr> \<and>
        (\<forall>r \<in> set (added ?p0 q j).
           \<exists>i. line_start indentedDocument i \<and>
               line_range indentedDocument (markers ?p0) (tags ?p0) i j r)) \<and>
     (\<forall>i. line_start indentedDocument i \<and> marker_first (markers ?p0) (drop i indentedDocument) \<longrightarrow>
        (\<exists>j < length (tags ?p0). \<exists>r \<in> set (added ?p0 q j).
             line_range indentedDocument (markers ?p0) (tags ?p0) i j r))" ..
  from q p'(1) have "q = p'" by simp
  with q p'(2) show ?thesis by (intro exI[of _ p']) simp
qed

subsection \<open>C9\<close>

text \<open>
  Claim C9 (grammar resolution depends only on the language id and the configuration,
  whatever was resolved before). \<^verbatim>\<open>setDelimiter\<close> resets three flags and then sets only the
  fields its \<^verbatim>\<open>case\<close> arm names. Resolving \<^verbatim>\<open>"sql"\<close> after \<^verbatim>\<open>"javascript"\<close> keeps the block
  delimiters and the doc-comment and multiline flags of \<^verbatim>\<open>"javascript"\<close>; resolving \<^verbatim>\<open>"sql"\<close>
  on a new parser leaves them at their initial values.
\<close>

theorem setDelimiter_keeps_earlier_block_settings:
  "highlightJSDoc (setDelimiter ''sql'' (setDelimiter ''javascript'' (newParser cfg)))
   \<and> \<not> highlightJSDoc (setDelimiter ''sql'' (newParser cfg))
   \<and> blockCommentStart (setDelimiter ''sql'' (setDelimiter ''javascript'' (newParser cfg))) =
       [CHR ''/'', bsl, CHR ''*'']
   \<and> blockCommentStart (setDelimiter ''sql'' (newParser cfg)) = []
   \<and> highlightMultilineComments (setDelimiter ''sql'' (setDelimiter ''javascript'' (newParser cfg))) =
       multilineComments cfg
   \<and> \<not> highlightMultilineComments (setDelimiter ''sql'' (newParser cfg))"
  by (simp add: setDelimiter_def setCommentFormat_def newParser_def setTags_def escapeRegExp_def)

subsection \<open>C10\<close>

text \<open>
  Claim C10 (in the block scans a marker with nothing after it, or with \<^verbatim>\<open>*\<close> or
  \<^verbatim>\<open>/\<close> after the tag and any spaces or colon, gives no range). The inner line pattern ends
  with \<^verbatim>\<open>([ ]*|[:])+([^*/]...)\<close>, and the class \<^verbatim>\<open>[^*/]\<close> also matches a space, a colon
  and a line break. In a \<^verbatim>\<open>"c"\<close> block comment with the marker \<^verbatim>\<open>!\<close>, the line \<^verbatim>\<open>! *x\<close> gives the
  range of columns 0 to 4 of that line: the repetition gives the space back to the class.
  A line that holds the marker alone, followed by the line \<^verbatim>\<open>abc\<close>, gives a range from the
  marker to the end of the following line: the class takes the line break. In a doc-style
  comment of \<^verbatim>\<open>"javascript"\<close> the line \<^verbatim>\<open> * ! *x\<close> gives the range of columns 3 to 7.
\<close>

theorem block_marker_before_star_gives_range:
  "observe (FindBlockComments starDocument (SetRegex ''c'' (newParser (sampleConfig False [''!'']))))
     = Some (Inr [(''!'', [\<lparr>range_start = \<lparr>line = 1, character = 0\<rparr>,
                            range_end = \<lparr>line = 1, character = 4\<rparr>\<rparr>])])
   \<and> observe (FindBlockComments bareDocument (SetRegex ''c'' (newParser (sampleConfig False [''!'']))))
     = Some (Inr [(''!'', [\<lparr>range_start = \<lparr>line = 1, character = 0\<rparr>,
                            range_end = \<lparr>line = 2, character = 3\<rparr>\<rparr>])])
   \<and> observe (FindJSDocComments starDocComment (SetRegex ''javascript'' (newParser (sampleConfig False [''!'']))))
     = Some (Inr [(''!'', [\<lparr>range_start = \<lparr>line = 1, character = 3\<rparr>,
                            range_end = \<lparr>line = 1, character = 7\<rparr>\<rparr>])])"
  by code_simp


end
